theory Spec2Isabelle
  imports Complex_Main
begin

section \<open>Exceptions\<close>

text \<open>
  Every exception the modelled functions can raise is a value; a function that can raise
  returns \<open>py_exception + 'a\<close>, with \<open>Inl\<close> for the raised exception.
  \<open>BareException\<close> is the plain \<open>Exception\<close> raised by \<open>get_best_solution\<close> on
  an empty list. \<open>ConnectionError\<close> is the builtin class the client raises when the
  server cannot be reached. \<open>OtherError\<close> stands for a class that derives from
  \<open>Exception\<close> directly.
\<close>

datatype py_exception =
    InvalidAnswerError
  | SortingFailureError
  | FilteringFailureError
  | BareException
  | AssertionError
  | ValueError
  | TypeError
  | IndexError
  | KeyError
  | AttributeError
  | StopIteration
  | ResponseError
  | ValidationError
  | JSONDecodeError
  | ConnectionError
  | OtherError

text \<open>
  An \<open>except\<close> clause catches a class and its subclasses. Of the classes above,
  \<open>json.JSONDecodeError\<close> and \<open>pydantic.ValidationError\<close> derive from
  \<open>ValueError\<close>; no other is derived from another one of them.
\<close>

fun bases :: "py_exception \<Rightarrow> py_exception list" where
  "bases JSONDecodeError = [ValueError]"
| "bases ValidationError = [ValueError]"
| "bases e = []"

definition isinstance :: "py_exception \<Rightarrow> py_exception \<Rightarrow> bool" where
  "isinstance e c = (e = c \<or> c \<in> set (bases e))"

section \<open>alignment/utils.py: the answer parser\<close>

subsection \<open>The answer pattern\<close>

text \<open>
  \<open>answer_pattern\<close> is the verbose regular expression \<^verbatim>\<open>(?P<answer>{[^{]+})\<close>: an
  opening brace, one or more characters other than an opening brace (greedy), a closing
  brace. \<open>re.search\<close> returns the leftmost match; at a given start the greedy body
  backtracks from the longest run of non-\<^verbatim>\<open>{\<close> characters to the last closing brace
  in that run that leaves at least one character for the body.
\<close>

definition open_brace :: char where
  "open_brace = CHR ''{''"

definition close_brace :: char where
  "close_brace = CHR ''}''"

definition greedy_body :: "string \<Rightarrow> string option" where
  "greedy_body rest =
     (let run = takeWhile (\<lambda>c. c \<noteq> open_brace) rest;
          p = rev (dropWhile (\<lambda>c. c \<noteq> close_brace) (rev run))
      in if 2 \<le> length p then Some p else None)"

definition match_at :: "string \<Rightarrow> string option" where
  "match_at s =
     (case s of
        [] \<Rightarrow> None
      | c # rest \<Rightarrow>
          if c = open_brace then map_option ((#) c) (greedy_body rest) else None)"

fun answer_pattern_search :: "string \<Rightarrow> string option" where
  "answer_pattern_search [] = None"
| "answer_pattern_search (c # cs) =
     (case match_at (c # cs) of
        Some m \<Rightarrow> Some m
      | None \<Rightarrow> answer_pattern_search cs)"

text \<open>\<open>text.replace("\n", "")\<close>.\<close>

definition remove_newlines :: "string \<Rightarrow> string" where
  "remove_newlines t = filter (\<lambda>c. c \<noteq> CHR 0x0A) t"

subsection \<open>Decoded JSON as the parser observes it\<close>

text \<open>
  \<open>json.loads\<close> belongs to the Python standard library, not to this repository, so the
  decoder is a parameter \<open>loads\<close> of the model: \<open>loads s = None\<close> when decoding raises
  \<open>JSONDecodeError\<close>, and \<open>Some j\<close> with the decoded dictionary otherwise (the matched span
  starts with an opening brace, so a successful decode is a dictionary). The parser
  observes a member only through \<open>is None\<close> and \<open>str\<close>: \<open>JNull\<close> is \<open>None\<close>, \<open>JStr s\<close>
  a string, and \<open>JOther s\<close> any other value, carried as its \<open>str()\<close> rendering \<open>s\<close>.
\<close>

datatype jvalue = JNull | JStr string | JOther string

type_synonym jdict = "string \<rightharpoonup> jvalue"

type_synonym json_loads = "string \<Rightarrow> jdict option"

fun py_str :: "jvalue \<Rightarrow> string" where
  "py_str JNull = ''None''"
| "py_str (JStr s) = s"
| "py_str (JOther s) = s"

text \<open>
  A text is a sequence of code points below 256, one \<open>char\<close> each. On these,
  \<open>str.lower\<close> maps the capitals \<open>A\<close> to \<open>Z\<close> and the Latin-1 capitals
  \<open>0xC0\<close> to \<open>0xDE\<close> (the multiplication sign \<open>0xD7\<close> apart) to the code point
  32 above, and \<open>str.strip\<close> removes the white space of \<open>str.isspace\<close>: the
  code points 9 to 13, 28 to 32, \<open>0x85\<close> and \<open>0xA0\<close>.
\<close>

definition lower_char :: "char \<Rightarrow> char" where
  "lower_char c =
     (let n = (of_char c :: nat)
      in if (65 \<le> n \<and> n \<le> 90) \<or> (192 \<le> n \<and> n \<le> 214) \<or> (216 \<le> n \<and> n \<le> 222)
         then char_of (n + 32) else c)"

definition py_lower :: "string \<Rightarrow> string" where
  "py_lower s = map lower_char s"

definition is_py_space :: "char \<Rightarrow> bool" where
  "is_py_space c =
     ((of_char c :: nat) \<in> {9, 10, 11, 12, 13, 28, 29, 30, 31, 32, 133, 160})"

definition py_strip :: "string \<Rightarrow> string" where
  "py_strip s = rev (dropWhile is_py_space (rev (dropWhile is_py_space s)))"

subsection \<open>answer_parser\<close>

definition answer_parser ::
  "json_loads \<Rightarrow> string \<Rightarrow> string set \<Rightarrow> py_exception + (string \<times> string)" where
  "answer_parser loads text valid_answers =
     (if \<not> (\<forall>x \<in> valid_answers. x = py_lower x) then Inl AssertionError
      else
        (case answer_pattern_search (remove_newlines text) of
           None \<Rightarrow> Inl InvalidAnswerError
         | Some matched \<Rightarrow>
             (case loads matched of
                None \<Rightarrow> Inl InvalidAnswerError
              | Some j \<Rightarrow>
                  (case j ''Answer'' of
                     None \<Rightarrow> Inl InvalidAnswerError
                   | Some JNull \<Rightarrow> Inl InvalidAnswerError
                   | Some v \<Rightarrow>
                       (let clean_answer = py_strip (py_lower (py_str v))
                        in if clean_answer \<in> valid_answers
                           then Inr (clean_answer, [])
                           else Inl InvalidAnswerError)))))"

text \<open>
  A span in the sense of the specification: an opening brace, then characters none of
  which is an opening brace, then a closing brace.
\<close>

fun closes_before_open :: "string \<Rightarrow> bool" where
  "closes_before_open [] = False"
| "closes_before_open (c # cs) =
     (if c = close_brace then True
      else if c = open_brace then False
      else closes_before_open cs)"

fun has_span :: "string \<Rightarrow> bool" where
  "has_span [] = False"
| "has_span (c # cs) = ((c = open_brace \<and> closes_before_open cs) \<or> has_span cs)"

subsection \<open>A decoder for flat objects\<close>

text \<open>
  For concrete inputs the decoder is instantiated with \<open>flat_loads\<close>, which decodes what
  \<open>json.loads\<close> decodes on objects whose keys and values are strings without escape
  sequences, separated by JSON whitespace: later duplicates of a key win, and anything
  after the closing brace other than whitespace is an error. It is \<open>None\<close> on every other
  input and is used only on inputs of that shape or on inputs the real decoder rejects.
\<close>

definition double_quote :: char where
  "double_quote = CHR 0x22"

definition is_json_ws :: "char \<Rightarrow> bool" where
  "is_json_ws c = (c = CHR '' '' \<or> c = CHR 0x09 \<or> c = CHR 0x0A \<or> c = CHR 0x0D)"

definition skip_ws :: "string \<Rightarrow> string" where
  "skip_ws s = dropWhile is_json_ws s"

fun scan_string :: "string \<Rightarrow> (string \<times> string) option" where
  "scan_string [] = None"
| "scan_string (c # cs) =
     (if c = double_quote then Some ([], cs)
      else if c = CHR 0x5C \<or> (of_char c :: nat) < 32 then None
      else map_option (\<lambda>(s, r). (c # s, r)) (scan_string cs))"

definition scan_quoted :: "string \<Rightarrow> (string \<times> string) option" where
  "scan_quoted s =
     (case s of
        [] \<Rightarrow> None
      | c # cs \<Rightarrow> if c = double_quote then scan_string cs else None)"

definition scan_member :: "string \<Rightarrow> ((string \<times> jvalue) \<times> string) option" where
  "scan_member s =
     (case scan_quoted s of
        None \<Rightarrow> None
      | Some (k, r) \<Rightarrow>
          (case skip_ws r of
             [] \<Rightarrow> None
           | c # r' \<Rightarrow>
               if c = CHR '':'' then
                 (case scan_quoted (skip_ws r') of
                    None \<Rightarrow> None
                  | Some (v, r'') \<Rightarrow> Some ((k, JStr v), skip_ws r''))
               else None))"

fun scan_members :: "nat \<Rightarrow> jdict \<Rightarrow> string \<Rightarrow> (jdict \<times> string) option" where
  "scan_members 0 d s = None"
| "scan_members (Suc fuel) d s =
     (case scan_member s of
        None \<Rightarrow> None
      | Some ((k, v), r) \<Rightarrow>
          (case r of
             [] \<Rightarrow> None
           | c # r' \<Rightarrow>
               if c = close_brace then Some (d(k \<mapsto> v), r')
               else if c = CHR '','' then scan_members fuel (d(k \<mapsto> v)) (skip_ws r')
               else None))"

definition flat_loads :: json_loads where
  "flat_loads s =
     (case skip_ws s of
        [] \<Rightarrow> None
      | c # r \<Rightarrow>
          if c = open_brace then
            (case skip_ws r of
               [] \<Rightarrow> None
             | c' # r' \<Rightarrow>
                 if c' = close_brace then (if skip_ws r' = [] then Some Map.empty else None)
                 else
                   (case scan_members (length r) Map.empty (c' # r') of
                      None \<Rightarrow> None
                    | Some (d, rest) \<Rightarrow> if skip_ws rest = [] then Some d else None))
          else None)"

text \<open>
  The answer object of the specification with a given explanation, the same with the
  explanation of three dots, and the two vocabularies.
\<close>

definition answer_object :: "string \<Rightarrow> string" where
  \<open>answer_object explanation = ''{"Answer": "yes", "Explanation": "'' @ explanation @ ''"}''\<close>

definition yes_answer_json :: string where
  \<open>yes_answer_json = ''{"Answer": "yes", "Explanation": "..."}''\<close>

definition VALID_FILTERING_ANSWERS :: "string set" where
  "VALID_FILTERING_ANSWERS = {''yes'', ''no''}"

definition VALID_SORTING_ANSWERS :: "string set" where
  "VALID_SORTING_ANSWERS = {''solution 1'', ''solution 2''}"

section \<open>solver/command.py, solver/resolution.py: commands, solutions, conflicts\<close>

text \<open>
  A command has one of three kinds, an execution time (a \<open>timedelta\<close> built from whole
  seconds) and an integer value. A solution is a callsign with its list of commands. A
  conflict is a set of callsigns with two metrics; \<open>__eq__\<close> compares the callsigns only.
\<close>

datatype command_kind = Heading | Altitude | Speed

record command =
  cmd_kind :: command_kind
  cmd_time :: int
  cmd_value :: int

record solution =
  callsign :: string
  commands :: "command list"

record conflict =
  callsigns :: "string set"
  dcpa :: real
  tcpa :: real

definition conflict_eq :: "conflict \<Rightarrow> conflict \<Rightarrow> bool" where
  "conflict_eq a b = (callsigns a = callsigns b)"

section \<open>alignment/policy.py: rules and policies\<close>

text \<open>
  The policy file is decoded by \<open>json.loads\<close>; \<open>json\<close> is the decoded document, an
  object being the list of its items in order. A rule keeps the key and the value of an
  entry as they are decoded.
\<close>

datatype json =
    JsNull
  | JsBool bool
  | JsInt int
  | JsFloat real
  | JsString string
  | JsArray "json list"
  | JsObject "(string \<times> json) list"

record rule =
  rule_id :: string
  rule_value :: json

record ATCPolicy =
  filtering_rules :: "rule list"
  sorting_rules :: "rule list"













section \<open>The judge as the engines see it\<close>

text \<open>
  The engines send one request per call of \<open>llm.chat\<close> and read
  \<open>["sequences"][0]\<close> of its result. A request is what the prompt is built from: the
  rendered rules and the serialized commands of the solution or of the two solutions. The
  judge is not deterministic, so a judge gives the outcome of the \<open>k\<close>-th call of
  an engine run for the request sent: the text returned, or the exception \<open>llm.chat\<close>
  raises.
\<close>

datatype request =
    FilterRequest "rule list" "command list"
  | SortRequest "rule list" "command list" "command list"

type_synonym judge = "nat \<Rightarrow> request \<Rightarrow> py_exception + string"

type_synonym call_log = "(request \<times> (py_exception + string)) list"

text \<open>The decision a judge outcome parses to, if any.\<close>

definition decision :: "json_loads \<Rightarrow> string set \<Rightarrow> py_exception + string \<Rightarrow> string option" where
  "decision loads valid_answers out =
     (case out of
        Inl e \<Rightarrow> None
      | Inr response \<Rightarrow>
          (case answer_parser loads response valid_answers of
             Inl e \<Rightarrow> None
           | Inr (a, explanation) \<Rightarrow> Some a))"

section \<open>alignment/sorting.py\<close>

definition MAX_RETRIES :: nat where
  "MAX_RETRIES = 3"

function sorting_loop ::
  "json_loads \<Rightarrow> judge \<Rightarrow> rule list \<Rightarrow> nat \<Rightarrow> solution list \<Rightarrow> call_log
     \<Rightarrow> (py_exception + solution) \<times> call_log" where
  "sorting_loop loads judge rules failed_attempts solutions calls =
     (if 1 < length solutions then
        (let req = SortRequest rules (commands (hd solutions)) (commands (last solutions));
             out = judge (length calls) req;
             calls' = calls @ [(req, out)]
         in case out of
              Inl e \<Rightarrow> (Inl e, calls')
            | Inr response \<Rightarrow>
                (case answer_parser loads response VALID_SORTING_ANSWERS of
                   Inl e \<Rightarrow>
                     if e = InvalidAnswerError then
                       (if MAX_RETRIES < failed_attempts + 1 then (Inl SortingFailureError, calls')
                        else sorting_loop loads judge rules (failed_attempts + 1) solutions calls')
                     else (Inl e, calls')
                 | Inr (preference, explanation) \<Rightarrow>
                     (let preferred_solution = (if preference = ''solution 1'' then 1 else 2 :: nat)
                      in sorting_loop loads judge rules failed_attempts
                           (if preferred_solution = 1 then butlast solutions else tl solutions)
                           calls')))
      else
        (case solutions of
           [] \<Rightarrow> (Inl IndexError, calls)
         | s # ss \<Rightarrow> (Inr (last solutions), calls)))"
  by pat_completeness auto
termination
  by (relation "measures [\<lambda>(loads, judge, rules, failed_attempts, solutions, calls). length solutions,
                          \<lambda>(loads, judge, rules, failed_attempts, solutions, calls).
                             Suc MAX_RETRIES - failed_attempts]")
     (auto simp: MAX_RETRIES_def)

definition get_best_solution ::
  "json_loads \<Rightarrow> judge \<Rightarrow> solution list \<Rightarrow> ATCPolicy
     \<Rightarrow> (py_exception + solution) \<times> call_log" where
  "get_best_solution loads judge solutions policy =
     (if length solutions = 0 then (Inl BareException, [])
      else if length solutions = 1 then (Inr (last solutions), [])
      else sorting_loop loads judge (sorting_rules policy) 0 solutions [])"

text \<open>
  The tournament as the specification words it: while more than one candidate remains,
  the first and the last are compared; on \<open>solution 1\<close> the last is dropped, otherwise
  the first; the sole remaining candidate is returned. \<open>decide k a b\<close> is the decision of
  round \<open>k\<close> on the pair \<open>(a, b)\<close>.
\<close>

function tournament_winner ::
  "(nat \<Rightarrow> solution \<Rightarrow> solution \<Rightarrow> string) \<Rightarrow> nat \<Rightarrow> solution list \<Rightarrow> solution" where
  "tournament_winner decide k sols =
     (if 1 < length sols then
        tournament_winner decide (Suc k)
          (if decide k (hd sols) (last sols) = ''solution 1'' then butlast sols else tl sols)
      else last sols)"
  by pat_completeness auto
termination
  by (relation "measure (\<lambda>(decide, k, sols). length sols)") auto

function tournament_rounds ::
  "(nat \<Rightarrow> solution \<Rightarrow> solution \<Rightarrow> string) \<Rightarrow> nat \<Rightarrow> solution list
     \<Rightarrow> (solution \<times> solution) list" where
  "tournament_rounds decide k sols =
     (if 1 < length sols then
        (hd sols, last sols) #
        tournament_rounds decide (Suc k)
          (if decide k (hd sols) (last sols) = ''solution 1'' then butlast sols else tl sols)
      else [])"
  by pat_completeness auto
termination
  by (relation "measure (\<lambda>(decide, k, sols). length sols)") auto



section \<open>alignment/filtering.py\<close>

fun filter_loop ::
  "json_loads \<Rightarrow> judge \<Rightarrow> rule list \<Rightarrow> solution list \<Rightarrow> solution list \<Rightarrow> bool list
     \<Rightarrow> call_log \<Rightarrow> (py_exception + solution list \<times> bool list) \<times> call_log" where
  "filter_loop loads judge rules [] valid_solutions keep_mask calls =
     (Inr (valid_solutions, keep_mask), calls)"
| "filter_loop loads judge rules (s # rest) valid_solutions keep_mask calls =
     (let req = FilterRequest rules (commands s);
          out = judge (length calls) req;
          calls' = calls @ [(req, out)]
      in case out of
           Inl e \<Rightarrow> (Inl e, calls')
         | Inr response \<Rightarrow>
             (case answer_parser loads response VALID_FILTERING_ANSWERS of
                Inl e \<Rightarrow> (Inl e, calls')
              | Inr (violation, explanation) \<Rightarrow>
                  if violation = ''yes'' then
                    filter_loop loads judge rules rest valid_solutions (keep_mask @ [False]) calls'
                  else if violation = ''no'' then
                    filter_loop loads judge rules rest (valid_solutions @ [s])
                      (keep_mask @ [True]) calls'
                  else (Inl InvalidAnswerError, calls')))"

text \<open>
  \<open>all(keep_mask[i] == ground_truth[i] for i in range(len(solutions)))\<close>; the mask has
  one entry per solution, the ground truth may be shorter.
\<close>

fun all_match :: "bool list \<Rightarrow> bool list \<Rightarrow> py_exception + bool" where
  "all_match [] gt = Inr True"
| "all_match (m # ms) [] = Inl IndexError"
| "all_match (m # ms) (g # gs) = (if m = g then all_match ms gs else Inr False)"

definition filter_solutions ::
  "json_loads \<Rightarrow> judge \<Rightarrow> solution list \<Rightarrow> ATCPolicy \<Rightarrow> bool list option
     \<Rightarrow> (py_exception + solution list) \<times> call_log" where
  "filter_solutions loads judge solutions policy ground_truth =
     (case filter_loop loads judge (filtering_rules policy) solutions [] [] [] of
        (Inl e, calls) \<Rightarrow> (Inl e, calls)
      | (Inr (valid_solutions, keep_mask), calls) \<Rightarrow>
          (case (case ground_truth of
                   None \<Rightarrow> Inr True
                 | Some [] \<Rightarrow> Inr True
                 | Some gt \<Rightarrow> all_match keep_mask gt) of
             Inl e \<Rightarrow> (Inl e, calls)
           | Inr success \<Rightarrow>
               if \<not> success then (Inl ValueError, calls) else (Inr valid_solutions, calls)))"

text \<open>The decision on the solution at position \<open>k\<close> of a filtering run.\<close>

definition filter_decision ::
  "json_loads \<Rightarrow> judge \<Rightarrow> rule list \<Rightarrow> nat \<Rightarrow> solution \<Rightarrow> string option" where
  "filter_decision loads judge rules k s =
     decision loads VALID_FILTERING_ANSWERS (judge k (FilterRequest rules (commands s)))"

section \<open>alignment/llm.py: chat\<close>

text \<open>
  The client is an external service: \<open>client attempt messages\<close> is what the call of
  \<open>CLIENT.chat\<close> in the given attempt does, returning a response whose message content
  (a string or \<open>None\<close>) is read, or raising. The events of a call are its attempts
  and its sleeps (in seconds). The result is the list under the key \<open>sequences\<close>.
\<close>

datatype client_outcome = Returns "string option" | Raises py_exception

datatype chat_event = Attempt nat | Sleep real

definition N_RETRIES :: nat where
  "N_RETRIES = 5"

text \<open>
  \<open>except (ollama.ResponseError, pydantic.ValidationError, TypeError, ValueError)\<close>.
\<close>

definition caught :: "py_exception \<Rightarrow> bool" where
  "caught e =
     (isinstance e ResponseError \<or> isinstance e ValidationError
      \<or> isinstance e TypeError \<or> isinstance e ValueError)"

fun chat_loop ::
  "(nat \<Rightarrow> 'm \<Rightarrow> client_outcome) \<Rightarrow> 'm \<Rightarrow> nat list \<Rightarrow> chat_event list
     \<Rightarrow> (py_exception + string option list) \<times> chat_event list" where
  "chat_loop client messages [] events = (Inr [Some []], events)"
| "chat_loop client messages (attempt # rest) events =
     (case client attempt messages of
        Returns content \<Rightarrow> (Inr [content], events @ [Attempt attempt])
      | Raises e \<Rightarrow>
          if caught e then
            chat_loop client messages rest
              (events @ [Attempt attempt, Sleep (min (1 / 10 + real attempt) 5)])
          else (Inl e, events @ [Attempt attempt]))"

definition chat ::
  "(nat \<Rightarrow> 'm \<Rightarrow> client_outcome) \<Rightarrow> 'm
     \<Rightarrow> (py_exception + string option list) \<times> chat_event list" where
  "chat client messages = chat_loop client messages [0..<N_RETRIES] []"

fun is_attempt :: "chat_event \<Rightarrow> bool" where
  "is_attempt (Attempt n) = True"
| "is_attempt (Sleep d) = False"

section \<open>ali.py: cleaning the conflicts under resolution\<close>

text \<open>
  \<open>conflicts_under_reso\<close> is a list, \<open>conflicts_under_reso_solution\<close> a dictionary keyed
  by conflicts, that is by their callsigns. Both are mutated in place; the loop runs over
  the enumeration of a copy of the list taken before the first iteration. \<open>simt\<close> is the
  simulation time \<open>bs.sim.simt\<close>, in seconds. A \<open>timedelta\<close> is a whole number of
  microseconds: \<open>timedelta(seconds=simt)\<close> rounds to the nearest microsecond, a tie
  going to the even one, and the time of a command is a whole number of seconds.
\<close>

definition round_half_even :: "real \<Rightarrow> int" where
  "round_half_even x =
     (let f = \<lfloor>x\<rfloor>; d = x - of_int f
      in if d < 1 / 2 then f else if 1 / 2 < d then f + 1 else if even f then f else f + 1)"

definition timedelta_seconds :: "real \<Rightarrow> int" where
  "timedelta_seconds s = round_half_even (s * 1000000)"

definition list_pop :: "'a list \<Rightarrow> nat \<Rightarrow> py_exception + 'a list" where
  "list_pop xs idx =
     (if idx < length xs then Inr (take idx xs @ drop (Suc idx) xs) else Inl IndexError)"

definition conflict_in :: "conflict \<Rightarrow> conflict list \<Rightarrow> bool" where
  "conflict_in rc conf_list = list_ex (\<lambda>c. conflict_eq c rc) conf_list"

type_synonym tracker = "conflict list \<times> (string set \<rightharpoonup> solution)"

definition drop_record :: "tracker \<Rightarrow> nat \<Rightarrow> conflict \<Rightarrow> py_exception + tracker" where
  "drop_record st idx rc =
     (case list_pop (fst st) idx of
        Inl e \<Rightarrow> Inl e
      | Inr under_reso \<Rightarrow>
          (case snd st (callsigns rc) of
             None \<Rightarrow> Inl KeyError
           | Some sol \<Rightarrow> Inr (under_reso, (snd st)(callsigns rc := None))))"

fun clean_loop ::
  "real \<Rightarrow> conflict list \<Rightarrow> (nat \<times> conflict) list \<Rightarrow> tracker \<Rightarrow> py_exception + tracker" where
  "clean_loop simt conf_list [] st = Inr st"
| "clean_loop simt conf_list ((idx, rc) # rest) st =
     (if \<not> conflict_in rc conf_list then
        (case drop_record st idx rc of
           Inl e \<Rightarrow> Inl e
         | Inr st' \<Rightarrow> clean_loop simt conf_list rest st')
      else
        (case snd st (callsigns rc) of
           None \<Rightarrow> Inl KeyError
         | Some sol \<Rightarrow>
             (case commands sol of
                [] \<Rightarrow> Inl IndexError
              | first_command # cs \<Rightarrow>
                  if (cmd_time first_command + 20) * 1000000 < timedelta_seconds simt then
                    (case drop_record st idx rc of
                       Inl e \<Rightarrow> Inl e
                     | Inr st' \<Rightarrow> clean_loop simt conf_list rest st')
                  else clean_loop simt conf_list rest st)))"

definition clean_conflicts_under_resolution ::
  "real \<Rightarrow> conflict list \<Rightarrow> (string set \<rightharpoonup> solution) \<Rightarrow> conflict list
     \<Rightarrow> py_exception + tracker" where
  "clean_conflicts_under_resolution simt conflicts_under_reso conflicts_under_reso_solution
       conf_list =
     clean_loop simt conf_list (zip [0..<length conflicts_under_reso] conflicts_under_reso)
       (conflicts_under_reso, conflicts_under_reso_solution)"

section \<open>Requests, decisions and concrete inputs used below\<close>

text \<open>The request of a sorting round, and the decision the judge's answer to it parses to.\<close>

definition sort_request :: "rule list \<Rightarrow> solution list \<Rightarrow> request" where
  "sort_request rules solutions =
     SortRequest rules (commands (hd solutions)) (commands (last solutions))"

definition pair_request :: "rule list \<Rightarrow> solution \<times> solution \<Rightarrow> request" where
  "pair_request rules p = SortRequest rules (commands (fst p)) (commands (snd p))"

definition judged ::
  "json_loads \<Rightarrow> judge \<Rightarrow> rule list \<Rightarrow> nat \<Rightarrow> solution \<Rightarrow> solution \<Rightarrow> string" where
  "judged loads judge rules k a b =
     (case decision loads VALID_SORTING_ANSWERS (judge k (SortRequest rules (commands a) (commands b))) of
        None \<Rightarrow> []
      | Some d \<Rightarrow> d)"


text \<open>
  The solutions of a list whose decision is \<open>no\<close>, in input order; \<open>dec k s\<close> is the
  decision on \<open>s\<close> when it is judged by call \<open>k\<close>, and the first solution is judged by
  call \<open>n\<close>.
\<close>

definition kept_solutions ::
  "(nat \<Rightarrow> solution \<Rightarrow> string option) \<Rightarrow> nat \<Rightarrow> solution list \<Rightarrow> solution list" where
  "kept_solutions dec n S =
     map snd (filter (\<lambda>(k, s). dec k s = Some ''no'') (zip [n..<n + length S] S))"

text \<open>
  Every entry of a log holds the outcome the judge gives, at the call number of the
  entry, for the request of the entry; the first entry has call number \<open>k\<close>.
\<close>

fun answered_by :: "judge \<Rightarrow> nat \<Rightarrow> call_log \<Rightarrow> bool" where
  "answered_by judge k [] = True"
| "answered_by judge k (e # es) = (snd e = judge k (fst e) \<and> answered_by judge (Suc k) es)"

declare sorting_loop.simps [simp del]
declare tournament_winner.simps [simp del]
declare tournament_rounds.simps [simp del]

text \<open>Three solutions as the tests build them, and a policy.\<close>

definition heading_only :: solution where
  "heading_only =
     \<lparr>callsign = ''GHI123'',
      commands = [\<lparr>cmd_kind = Heading, cmd_time = 1000, cmd_value = 5000\<rparr>]\<rparr>"

definition altitude_only :: solution where
  "altitude_only =
     \<lparr>callsign = ''DEF123'',
      commands = [\<lparr>cmd_kind = Altitude, cmd_time = 1000, cmd_value = 5000\<rparr>]\<rparr>"

definition speed_only :: solution where
  "speed_only =
     \<lparr>callsign = ''ABC123'',
      commands = [\<lparr>cmd_kind = Speed, cmd_time = 1000, cmd_value = 5000\<rparr>]\<rparr>"

definition example_policy :: ATCPolicy where
  "example_policy =
     \<lparr>filtering_rules = [\<lparr>rule_id = ''F1'', rule_value = JsString ''no altitude changes''\<rparr>],
      sorting_rules = [\<lparr>rule_id = ''S1'', rule_value = JsString ''prefer heading changes''\<rparr>]\<rparr>"

text \<open>Judge answers: the texts of the tests, and a text with no JSON object.\<close>

definition solution_1_text :: string where
  \<open>solution_1_text = ''```json{    "Explanation": " ",    "Answer": "Solution 1"}```''\<close>

definition solution_2_text :: string where
  \<open>solution_2_text = ''```json{    "Explanation": " ",    "Answer": "Solution 2"}```''\<close>

definition no_text :: string where
  \<open>no_text = ''```json{    "Explanation": " ",    "Answer": "no"}```''\<close>

definition yes_text :: string where
  \<open>yes_text = ''```json{    "Explanation": " ",    "Answer": "yes"}```''\<close>

definition undecided_text :: string where
  "undecided_text = ''I cannot decide.''"

definition always_solution_1 :: judge where
  "always_solution_1 k req = Inr solution_1_text"

definition alternating_judge :: judge where
  "alternating_judge k req = Inr (if even k then solution_2_text else solution_1_text)"


text \<open>A deterministic judge of filtering requests: altitude changes violate the rules.\<close>

definition altitude_judge :: judge where
  "altitude_judge k req =
     (case req of
        FilterRequest rules cmds \<Rightarrow>
          Inr (if list_ex (\<lambda>c. cmd_kind c = Altitude) cmds then yes_text else no_text)
      | SortRequest rules c1 c2 \<Rightarrow> Inr undecided_text)"


section \<open>get_best_solution on an explicit store\<close>

text \<open>
  To speak about what \<open>get_best_solution\<close> mutates, lists and solutions are objects in
  a store: a list cell holds the references of its elements, a solution cell holds a
  solution. The argument \<open>solutions\<close> and the local name it is rebound to are references
  to list cells. The slices \<open>solutions[:-1]\<close> and \<open>solutions[1:]\<close> build a new list
  object, at the next free address. No statement of the function assigns into a list or
  into a solution.
\<close>

record heap =
  list_cells :: "nat \<Rightarrow> nat list"
  solution_cells :: "nat \<Rightarrow> solution"
  next_free :: nat

definition new_list :: "heap \<Rightarrow> nat list \<Rightarrow> nat \<times> heap" where
  "new_list h xs =
     (next_free h,
      h\<lparr>list_cells := (list_cells h)(next_free h := xs), next_free := Suc (next_free h)\<rparr>)"

function sorting_loop_heap ::
  "json_loads \<Rightarrow> judge \<Rightarrow> rule list \<Rightarrow> nat \<Rightarrow> nat \<Rightarrow> call_log \<Rightarrow> heap
     \<Rightarrow> ((py_exception + nat) \<times> call_log) \<times> heap" where
  "sorting_loop_heap loads judge rules failed_attempts solutions calls h =
     (if 1 < length (list_cells h solutions) then
        (let s1 = hd (list_cells h solutions);
             s2 = last (list_cells h solutions);
             req = SortRequest rules (commands (solution_cells h s1))
                     (commands (solution_cells h s2));
             out = judge (length calls) req;
             calls' = calls @ [(req, out)]
         in case out of
              Inl e \<Rightarrow> ((Inl e, calls'), h)
            | Inr response \<Rightarrow>
                (case answer_parser loads response VALID_SORTING_ANSWERS of
                   Inl e \<Rightarrow>
                     if e = InvalidAnswerError then
                       (if MAX_RETRIES < failed_attempts + 1
                        then ((Inl SortingFailureError, calls'), h)
                        else sorting_loop_heap loads judge rules (failed_attempts + 1)
                               solutions calls' h)
                     else ((Inl e, calls'), h)
                 | Inr (preference, explanation) \<Rightarrow>
                     (let preferred_solution = (if preference = ''solution 1'' then 1 else 2 :: nat);
                          sliced = new_list h
                            (if preferred_solution = 1 then butlast (list_cells h solutions)
                             else tl (list_cells h solutions))
                      in sorting_loop_heap loads judge rules failed_attempts
                           (fst sliced) calls' (snd sliced))))
      else
        (case list_cells h solutions of
           [] \<Rightarrow> ((Inl IndexError, calls), h)
         | s # ss \<Rightarrow> ((Inr (last (list_cells h solutions)), calls), h)))"
  by pat_completeness auto
termination
  by (relation "measures [\<lambda>(loads, judge, rules, failed_attempts, solutions, calls, h).
                             length (list_cells h solutions),
                          \<lambda>(loads, judge, rules, failed_attempts, solutions, calls, h).
                             Suc MAX_RETRIES - failed_attempts]")
     (auto simp: MAX_RETRIES_def new_list_def)

declare sorting_loop_heap.simps [simp del]

definition get_best_solution_heap ::
  "json_loads \<Rightarrow> judge \<Rightarrow> nat \<Rightarrow> ATCPolicy \<Rightarrow> heap
     \<Rightarrow> ((py_exception + nat) \<times> call_log) \<times> heap" where
  "get_best_solution_heap loads judge solutions policy h =
     (if length (list_cells h solutions) = 0 then ((Inl BareException, []), h)
      else if length (list_cells h solutions) = 1
        then ((Inr (last (list_cells h solutions)), []), h)
      else sorting_loop_heap loads judge (sorting_rules policy) 0 solutions [] h)"

text \<open>The solutions a list cell refers to.\<close>

definition list_value :: "heap \<Rightarrow> nat \<Rightarrow> solution list" where
  "list_value h r = map (solution_cells h) (list_cells h r)"

text \<open>A store with the three example solutions and the caller's list of them.\<close>

definition example_heap :: heap where
  "example_heap =
     \<lparr>list_cells = (\<lambda>a. [])(0 := [0, 1, 2]),
      solution_cells = (\<lambda>a. speed_only)(1 := altitude_only, 2 := heading_only),
      next_free = 1\<rparr>"

section \<open>Concrete conflicts for the tracker\<close>

definition conflict_a :: conflict where
  "conflict_a = \<lparr>callsigns = {''KL204'', ''AF123''}, dcpa = 2, tcpa = 60\<rparr>"

definition conflict_b :: conflict where
  "conflict_b = \<lparr>callsigns = {''BA77'', ''LH400''}, dcpa = 3, tcpa = 90\<rparr>"

definition conflict_c :: conflict where
  "conflict_c = \<lparr>callsigns = {''IB31'', ''SK9''}, dcpa = 1, tcpa = 45\<rparr>"

text \<open>A chosen solution whose first command is scheduled at time 100.\<close>

definition turn_at_100 :: solution where
  "turn_at_100 =
     \<lparr>callsign = ''KL204'',
      commands = [\<lparr>cmd_kind = Heading, cmd_time = 100, cmd_value = 90\<rparr>]\<rparr>"

definition three_tracked :: "string set \<rightharpoonup> solution" where
  "three_tracked =
     [callsigns conflict_a \<mapsto> turn_at_100, callsigns conflict_b \<mapsto> turn_at_100,
      callsigns conflict_c \<mapsto> turn_at_100]"

text \<open>What a cleaning pass leaves: the list, and the dictionary read at given keys.\<close>

definition tracker_view ::
  "py_exception + tracker \<Rightarrow> conflict list
     \<Rightarrow> py_exception + (conflict list \<times> solution option list)" where
  "tracker_view r keys =
     (case r of
        Inl e \<Rightarrow> Inl e
      | Inr st \<Rightarrow> Inr (fst st, map (\<lambda>c. snd st (callsigns c)) keys))"

text \<open>The events of a call of \<open>chat\<close> all of whose attempts fail.\<close>

definition failed_attempt_events :: "nat \<Rightarrow> chat_event list" where
  "failed_attempt_events attempt = [Attempt attempt, Sleep (min (1 / 10 + real attempt) 5)]"

section \<open>Properties of the answer parser\<close>

lemma braces_distinct [simp]:
  "open_brace \<noteq> close_brace" "close_brace \<noteq> open_brace"
  "open_brace \<noteq> CHR 0x0A" "close_brace \<noteq> CHR 0x0A"
  "CHR 0x0A \<noteq> open_brace" "CHR 0x0A \<noteq> close_brace"
  by (simp_all add: open_brace_def close_brace_def)

lemma takeWhile_stop: "\<not> P y \<Longrightarrow> takeWhile P (xs @ y # ys) = takeWhile P xs"
  by (induction xs) auto

lemma greedy_body_prefix: "greedy_body (pre @ open_brace # rest) = greedy_body pre"
  by (simp add: greedy_body_def takeWhile_stop)

lemma match_at_prefix:
  "match_at ((c # pre) @ open_brace # rest) = match_at (c # pre)"
  by (simp add: match_at_def greedy_body_prefix)

lemma search_skips_prefix:
  "answer_pattern_search pre = None \<Longrightarrow>
   answer_pattern_search (pre @ open_brace # rest) = answer_pattern_search (open_brace # rest)"
proof (induction pre)
  case Nil
  then show ?case by simp
next
  case (Cons c pre)
  from Cons.prems have m: "match_at (c # pre) = None" and s: "answer_pattern_search pre = None"
    by (auto split: option.splits)
  have "match_at (c # pre @ open_brace # rest) = None"
    using m match_at_prefix [of c pre rest] by simp
  then show ?case using Cons.IH [OF s] by simp
qed

lemma greedy_body_exact:
  assumes "open_brace \<notin> set body" "body \<noteq> []" "last body = close_brace" "2 \<le> length body"
    "close_brace \<notin> set (takeWhile (\<lambda>c. c \<noteq> open_brace) post)"
  shows "greedy_body (body @ post) = Some body"
proof -
  let ?tw = "takeWhile (\<lambda>c. c \<noteq> open_brace) post"
  define bs where "bs = butlast body"
  have body: "body = bs @ [close_brace]"
    using append_butlast_last_id [OF assms(2)] assms(3) by (simp add: bs_def)
  have run: "takeWhile (\<lambda>c. c \<noteq> open_brace) (body @ post) = body @ ?tw"
    using assms(1) by (intro takeWhile_append2) auto
  have "dropWhile (\<lambda>c. c \<noteq> close_brace) (rev ?tw @ close_brace # rev bs)
        = dropWhile (\<lambda>c. c \<noteq> close_brace) (close_brace # rev bs)"
    using assms(5) by (intro dropWhile_append2) auto
  then have "rev (dropWhile (\<lambda>c. c \<noteq> close_brace) (rev (body @ ?tw))) = body"
    by (simp add: body)
  then have p: "rev (dropWhile (\<lambda>c. c \<noteq> close_brace)
      (rev (takeWhile (\<lambda>c. c \<noteq> open_brace) (body @ post)))) = body"
    unfolding run .
  show ?thesis unfolding greedy_body_def Let_def p using assms(4) by simp
qed

lemma search_finds_object:
  assumes "answer_pattern_search pre = None"
    "open_brace \<notin> set body" "last body = close_brace" "2 \<le> length body"
    "close_brace \<notin> set (takeWhile (\<lambda>c. c \<noteq> open_brace) post)"
  shows "answer_pattern_search (pre @ (open_brace # body) @ post) = Some (open_brace # body)"
proof -
  have ne: "body \<noteq> []" using assms(4) by auto
  have "match_at (open_brace # body @ post) = Some (open_brace # body)"
    using greedy_body_exact [OF assms(2) ne assms(3,4,5)] by (simp add: match_at_def)
  then have "answer_pattern_search (open_brace # body @ post) = Some (open_brace # body)"
    by simp
  then show ?thesis using search_skips_prefix [OF assms(1), of "body @ post"] by simp
qed

lemma closes_before_open_iff:
  "closes_before_open cs \<longleftrightarrow> close_brace \<in> set (takeWhile (\<lambda>c. c \<noteq> open_brace) cs)"
  by (induction cs) auto

lemma greedy_body_closes:
  assumes "greedy_body cs = Some p"
  shows "closes_before_open cs"
proof -
  let ?tw = "takeWhile (\<lambda>c. c \<noteq> open_brace) cs"
  from assms have "2 \<le> length (dropWhile (\<lambda>c. c \<noteq> close_brace) (rev ?tw))"
    by (auto simp: greedy_body_def Let_def split: if_splits)
  then have len: "length (dropWhile (\<lambda>c. c \<noteq> close_brace) (rev ?tw)) \<noteq> 0"
    by linarith
  have "close_brace \<in> set ?tw"
  proof (rule ccontr)
    assume "close_brace \<notin> set ?tw"
    then have "\<forall>x \<in> set (rev ?tw). x \<noteq> close_brace"
      by auto
    then have "dropWhile (\<lambda>c. c \<noteq> close_brace) (rev ?tw) = []"
      unfolding dropWhile_eq_Nil_conv .
    with len show False by simp
  qed
  then show ?thesis by (simp add: closes_before_open_iff)
qed

lemma search_Some_has_span: "answer_pattern_search s = Some m \<Longrightarrow> has_span s"
proof (induction s)
  case Nil
  then show ?case by simp
next
  case (Cons c cs)
  show ?case
  proof (cases "match_at (c # cs)")
    case None
    then show ?thesis using Cons by simp
  next
    case (Some m')
    then have "c = open_brace \<and> closes_before_open cs"
      by (auto simp: match_at_def split: if_splits dest: greedy_body_closes)
    then show ?thesis by simp
  qed
qed

lemma closes_before_open_filter:
  "closes_before_open (filter (\<lambda>c. c \<noteq> CHR 0x0A) cs) \<Longrightarrow> closes_before_open cs"
  by (induction cs) (auto split: if_splits)

lemma has_span_remove_newlines: "has_span (remove_newlines t) \<Longrightarrow> has_span t"
  unfolding remove_newlines_def
  by (induction t) (auto split: if_splits dest: closes_before_open_filter)

lemma closes_before_open_split:
  "closes_before_open cs \<Longrightarrow> \<exists>mid post. cs = mid @ close_brace # post \<and> open_brace \<notin> set mid"
proof (induction cs)
  case Nil
  then show ?case by simp
next
  case (Cons c cs)
  show ?case
  proof (cases "c = close_brace")
    case True
    then have "c # cs = [] @ close_brace # cs \<and> open_brace \<notin> set []" by simp
    then show ?thesis by blast
  next
    case False
    with Cons.prems have c: "c \<noteq> open_brace" and "closes_before_open cs"
      by (auto split: if_splits)
    then obtain mid post where "cs = mid @ close_brace # post" "open_brace \<notin> set mid"
      using Cons.IH by blast
    then have "c # cs = (c # mid) @ close_brace # post \<and> open_brace \<notin> set (c # mid)"
      using c by auto
    then show ?thesis by blast
  qed
qed

lemma closes_before_open_append:
  "open_brace \<notin> set mid \<Longrightarrow> closes_before_open (mid @ close_brace # post)"
  by (induction mid) auto

lemma has_span_append: "has_span s \<Longrightarrow> has_span (pre @ s)"
  by (induction pre) auto

lemma has_span_iff:
  "has_span t \<longleftrightarrow>
   (\<exists>pre mid post. t = pre @ open_brace # mid @ close_brace # post \<and> open_brace \<notin> set mid)"
proof
  show "has_span t \<Longrightarrow>
    \<exists>pre mid post. t = pre @ open_brace # mid @ close_brace # post \<and> open_brace \<notin> set mid"
  proof (induction t)
    case Nil
    then show ?case by simp
  next
    case (Cons c cs)
    show ?case
    proof (cases "c = open_brace \<and> closes_before_open cs")
      case True
      then obtain mid post where "cs = mid @ close_brace # post" "open_brace \<notin> set mid"
        using closes_before_open_split by blast
      then have "c # cs = [] @ open_brace # mid @ close_brace # post \<and> open_brace \<notin> set mid"
        using True by simp
      then show ?thesis by blast
    next
      case False
      then have "has_span cs" using Cons.prems by auto
      then obtain pre mid post
        where "cs = pre @ open_brace # mid @ close_brace # post" "open_brace \<notin> set mid"
        using Cons.IH by blast
      then have "c # cs = (c # pre) @ open_brace # mid @ close_brace # post \<and> open_brace \<notin> set mid"
        by simp
      then show ?thesis by blast
    qed
  qed
next
  assume "\<exists>pre mid post. t = pre @ open_brace # mid @ close_brace # post \<and> open_brace \<notin> set mid"
  then obtain pre mid post
    where t: "t = pre @ open_brace # mid @ close_brace # post" and m: "open_brace \<notin> set mid"
    by blast
  have "has_span (open_brace # mid @ close_brace # post)"
    using closes_before_open_append [OF m] by simp
  then show "has_span t" unfolding t by (rule has_span_append)
qed

lemma answer_object_shape:
  assumes "open_brace \<notin> set e"
  shows "\<exists>body. answer_object e = open_brace # body \<and> open_brace \<notin> set body
      \<and> last body = close_brace \<and> 2 \<le> length body"
  using assms by (simp add: answer_object_def open_brace_def close_brace_def)

lemma remove_newlines_answer_object:
  "remove_newlines (answer_object e) = answer_object (remove_newlines e)"
  by (simp add: answer_object_def remove_newlines_def)

lemma remove_newlines_keeps_braces:
  "open_brace \<in> set (remove_newlines e) \<longleftrightarrow> open_brace \<in> set e"
  by (auto simp: remove_newlines_def)

lemma clean_yes: "py_strip (py_lower ''yes'') = ''yes''"
  by (simp add: py_strip_def py_lower_def lower_char_def is_py_space_def)

lemma filtering_answers_lower: "\<forall>x \<in> VALID_FILTERING_ANSWERS. x = py_lower x"
  by (simp add: VALID_FILTERING_ANSWERS_def py_lower_def lower_char_def)

lemma sorting_answers_lower: "\<forall>x \<in> VALID_SORTING_ANSWERS. x = py_lower x"
  by (simp add: VALID_SORTING_ANSWERS_def py_lower_def lower_char_def)

text \<open>
  Claim C1, as the code has it. The text contains the answer object of the
  specification, with any explanation. The parser returns the token \<open>yes\<close> (with an
  empty explanation) provided the explanation contains no opening brace, the decoder
  decodes the object (read without its newlines) to a dictionary with the answer
  \<open>yes\<close>, the answer pattern has no match in the text before the object, and no closing
  brace follows the object before the next opening brace (newlines removed). For every
  text with no span made of an opening brace, characters other than an opening brace and
  a closing brace, the parser raises \<open>InvalidAnswerError\<close>.
\<close>

theorem answer_parser_finds_yes:
  "(loads (remove_newlines (answer_object explanation)) = Some j
      \<and> j ''Answer'' = Some (JStr ''yes'')
      \<and> open_brace \<notin> set explanation
      \<and> answer_pattern_search (remove_newlines pre) = None
      \<and> close_brace \<notin> set (takeWhile (\<lambda>c. c \<noteq> open_brace) (remove_newlines post))
    \<longrightarrow> answer_parser loads (pre @ answer_object explanation @ post) VALID_FILTERING_ANSWERS
          = Inr (''yes'', []))
   \<and> (\<not> has_span text
    \<longrightarrow> answer_parser loads text VALID_FILTERING_ANSWERS = Inl InvalidAnswerError)"
proof (intro conjI impI)
  assume a: "loads (remove_newlines (answer_object explanation)) = Some j
      \<and> j ''Answer'' = Some (JStr ''yes'')
      \<and> open_brace \<notin> set explanation
      \<and> answer_pattern_search (remove_newlines pre) = None
      \<and> close_brace \<notin> set (takeWhile (\<lambda>c. c \<noteq> open_brace) (remove_newlines post))"
  let ?obj = "remove_newlines (answer_object explanation)"
  have "open_brace \<notin> set (remove_newlines explanation)"
    using a by (simp add: remove_newlines_keeps_braces)
  then obtain body where b: "?obj = open_brace # body" "open_brace \<notin> set body"
    "last body = close_brace" "2 \<le> length body"
    unfolding remove_newlines_answer_object using answer_object_shape by blast
  have r: "remove_newlines (pre @ answer_object explanation @ post)
      = remove_newlines pre @ (open_brace # body) @ remove_newlines post"
    using b(1) by (simp add: remove_newlines_def)
  have "answer_pattern_search (remove_newlines (pre @ answer_object explanation @ post)) = Some ?obj"
    unfolding r using search_finds_object [of "remove_newlines pre" body "remove_newlines post"] a b
    by simp
  then show "answer_parser loads (pre @ answer_object explanation @ post) VALID_FILTERING_ANSWERS
          = Inr (''yes'', [])"
    using a filtering_answers_lower
    by (simp add: answer_parser_def clean_yes) (simp add: VALID_FILTERING_ANSWERS_def)
next
  assume "\<not> has_span text"
  then have "answer_pattern_search (remove_newlines text) = None"
    using search_Some_has_span has_span_remove_newlines by (cases "answer_pattern_search (remove_newlines text)") auto
  then show "answer_parser loads text VALID_FILTERING_ANSWERS = Inl InvalidAnswerError"
    using filtering_answers_lower by (simp add: answer_parser_def)
qed

lemmas eval_defs = answer_parser_def VALID_FILTERING_ANSWERS_def yes_answer_json_def answer_object_def py_lower_def lower_char_def remove_newlines_def match_at_def greedy_body_def open_brace_def close_brace_def flat_loads_def skip_ws_def is_json_ws_def scan_member_def scan_quoted_def double_quote_def py_strip_def is_py_space_def

text \<open>
  The theorem at a concrete text, with the decoder for flat objects: the explanation
  holds a closing brace and a newline, and braces that open no match surround the
  object.
\<close>

theorem answer_parser_finds_yes_witness:
  "answer_parser flat_loads
     (''Sure {{: '' @ answer_object (''keeps [FL} 300'' @ [CHR 0x0A] @ ''as required'')
        @ '' done. {}'') VALID_FILTERING_ANSWERS
     = Inr (''yes'', [])
   \<and> answer_parser flat_loads ''} no object here {'' VALID_FILTERING_ANSWERS = Inl InvalidAnswerError"
proof -
  let ?e = "''keeps [FL} 300'' @ [CHR 0x0A] @ ''as required''"
  let ?j = "Map.empty(''Answer'' \<mapsto> JStr ''yes'',
              ''Explanation'' \<mapsto> JStr ''keeps [FL} 300as required'')"
  have 1: "flat_loads (remove_newlines (answer_object ?e)) = Some ?j"
    by (simp add: eval_defs)
  have 2: "answer_pattern_search (remove_newlines ''Sure {{: '') = None"
    by (simp add: eval_defs)
  have 3: "close_brace \<notin> set (takeWhile (\<lambda>c. c \<noteq> open_brace) (remove_newlines '' done. {}''))"
    by (simp add: eval_defs)
  have 4: "\<not> has_span ''} no object here {''"
    by (simp add: eval_defs)
  have 5: "open_brace \<notin> set ?e"
    by (simp add: open_brace_def)
  show ?thesis
    using answer_parser_finds_yes [of flat_loads ?e ?j "''Sure {{: ''" "'' done. {}''"
        "''} no object here {''"] 1 2 3 4 5
    by simp
qed

text \<open>
  Claim C1 as stated fails: the first span need not be the answer object. An earlier
  span in the surrounding prose is matched first and is not JSON; a later closing
  brace extends the greedy match beyond the object; and an opening brace inside the
  explanation makes the match start there. All three raise \<open>InvalidAnswerError\<close>
  although the text contains the answer object, the third with no surrounding prose at
  all.
\<close>

theorem answer_parser_yes_counterexample:
  "answer_parser flat_loads (''See {rule 1}. '' @ yes_answer_json) VALID_FILTERING_ANSWERS
     = Inl InvalidAnswerError
   \<and> answer_parser flat_loads (yes_answer_json @ '' (end}'') VALID_FILTERING_ANSWERS
     = Inl InvalidAnswerError
   \<and> answer_parser flat_loads (answer_object ''violates {rule 1}'') VALID_FILTERING_ANSWERS
     = Inl InvalidAnswerError"
  by (simp add: eval_defs)

section \<open>Properties of the sorting engine\<close>

lemma sorting_parser_errors:
  assumes "answer_parser loads t VALID_SORTING_ANSWERS = Inl e"
  shows "e = InvalidAnswerError"
  using assms sorting_answers_lower
  by (auto simp: answer_parser_def Let_def split: option.splits jvalue.splits if_splits)

lemma decision_Some_iff:
  "decision loads V out = Some d \<longleftrightarrow>
   (\<exists>resp ex. out = Inr resp \<and> answer_parser loads resp V = Inr (d, ex))"
  by (auto simp: decision_def split: sum.splits)

lemma decision_None_sorting:
  assumes "decision loads VALID_SORTING_ANSWERS (Inr resp) = None"
  shows "answer_parser loads resp VALID_SORTING_ANSWERS = Inl InvalidAnswerError"
proof (cases "answer_parser loads resp VALID_SORTING_ANSWERS")
  case (Inl e)
  then show ?thesis using sorting_parser_errors by blast
next
  case (Inr p)
  then show ?thesis using assms by (cases p) (simp add: decision_def)
qed

text \<open>One round of the loop, by the outcome of the judge call.\<close>

lemma sorting_loop_single:
  assumes "length sols = 1"
  shows "sorting_loop loads judge rules f sols calls = (Inr (last sols), calls)"
  using assms by (subst sorting_loop.simps) (auto split: list.splits)

lemma sorting_loop_win:
  assumes "1 < length sols"
    and "decision loads VALID_SORTING_ANSWERS (judge (length calls) (sort_request rules sols)) = Some d"
  shows "sorting_loop loads judge rules f sols calls =
         sorting_loop loads judge rules f
           (if d = ''solution 1'' then butlast sols else tl sols)
           (calls @ [(sort_request rules sols, judge (length calls) (sort_request rules sols))])"
proof -
  obtain resp ex where out: "judge (length calls) (sort_request rules sols) = Inr resp"
    and p: "answer_parser loads resp VALID_SORTING_ANSWERS = Inr (d, ex)"
    using assms(2) unfolding decision_Some_iff by blast
  show ?thesis
    using assms(1) out p
    by (subst sorting_loop.simps) (simp add: sort_request_def [symmetric] Let_def)
qed

lemma sorting_loop_fail:
  assumes "1 < length sols"
    and "judge (length calls) (sort_request rules sols) = Inr resp"
    and "decision loads VALID_SORTING_ANSWERS (Inr resp) = None"
  shows "sorting_loop loads judge rules f sols calls =
         (if MAX_RETRIES < Suc f
          then (Inl SortingFailureError, calls @ [(sort_request rules sols, Inr resp)])
          else sorting_loop loads judge rules (Suc f) sols
                 (calls @ [(sort_request rules sols, Inr resp)]))"
  using assms(1,2) decision_None_sorting [OF assms(3)]
  by (subst sorting_loop.simps) (simp add: sort_request_def [symmetric] Let_def)

lemma sorting_loop_raise:
  assumes "1 < length sols"
    and "judge (length calls) (sort_request rules sols) = Inl e"
  shows "sorting_loop loads judge rules f sols calls =
         (Inl e, calls @ [(sort_request rules sols, Inl e)])"
  using assms
  by (subst sorting_loop.simps) (simp add: sort_request_def [symmetric] Let_def)

lemma all_less_Suc_shift: "(\<forall>i<Suc m. P i) \<longleftrightarrow> P 0 \<and> (\<forall>i<m. P (Suc i))"
  by (auto simp: less_Suc_eq_0_disj)

lemma answered_by_nth:
  "answered_by judge k es \<longleftrightarrow> (\<forall>i<length es. snd (es ! i) = judge (k + i) (fst (es ! i)))"
proof (induction es arbitrary: k)
  case Nil
  then show ?case by simp
next
  case (Cons e es)
  have "(\<forall>i<length (e # es). snd ((e # es) ! i) = judge (k + i) (fst ((e # es) ! i)))
      \<longleftrightarrow> snd ((e # es) ! 0) = judge (k + 0) (fst ((e # es) ! 0))
        \<and> (\<forall>i<length es. snd ((e # es) ! Suc i) = judge (k + Suc i) (fst ((e # es) ! Suc i)))"
    unfolding length_Cons by (rule all_less_Suc_shift)
  then show ?case using Cons.IH [of "Suc k"] by simp
qed

lemma drop_one_nonempty:
  assumes "1 < length sols"
  shows "butlast sols \<noteq> [] \<and> tl sols \<noteq> []"
  using assms by (cases sols) (auto split: if_splits)

lemma tournament_winner_member:
  "sols \<noteq> [] \<Longrightarrow> tournament_winner decide k sols \<in> set sols"
proof (induction "length sols" arbitrary: sols k)
  case 0
  then show ?case by simp
next
  case (Suc n)
  show ?case
  proof (cases "1 < length sols")
    case False
    then show ?thesis
      using Suc.prems by (subst tournament_winner.simps) simp
  next
    case True
    let ?next = "if decide k (hd sols) (last sols) = ''solution 1'' then butlast sols else tl sols"
    have len: "n = length ?next" using Suc.hyps(2) by simp
    have ne: "?next \<noteq> []" using drop_one_nonempty [OF True] by simp
    have "sols \<noteq> []" using True by auto
    then have sub: "set ?next \<subseteq> set sols"
      by (auto dest: in_set_butlastD list.set_sel(2))
    have "tournament_winner decide (Suc k) ?next \<in> set ?next"
      using Suc.hyps(1) [OF len ne] .
    then show ?thesis
      using True sub by (subst tournament_winner.simps) auto
  qed
qed

text \<open>When every answer parses, the loop is the tournament of the specification.\<close>

lemma sorting_loop_tournament:
  assumes parse: "\<forall>k req. decision loads VALID_SORTING_ANSWERS (judge k req) \<noteq> None"
  shows "sols \<noteq> [] \<Longrightarrow>
     fst (sorting_loop loads judge rules f sols calls)
       = Inr (tournament_winner (judged loads judge rules) (length calls) sols)
     \<and> map fst (snd (sorting_loop loads judge rules f sols calls))
       = map fst calls @
         map (pair_request rules) (tournament_rounds (judged loads judge rules) (length calls) sols)
     \<and> length (snd (sorting_loop loads judge rules f sols calls))
       = length calls + (length sols - 1)"
proof (induction "length sols" arbitrary: sols calls)
  case 0
  then show ?case by simp
next
  case (Suc n)
  show ?case
  proof (cases "1 < length sols")
    case False
    then have one: "length sols = 1" using Suc.prems by (cases sols) auto
    show ?thesis
      unfolding sorting_loop_single [OF one]
      using one
      by (simp add: tournament_winner.simps [of _ _ sols] tournament_rounds.simps [of _ _ sols])
  next
    case True
    let ?req = "sort_request rules sols"
    obtain d where d: "decision loads VALID_SORTING_ANSWERS (judge (length calls) ?req) = Some d"
      using parse by (metis option.exhaust)
    let ?next = "if d = ''solution 1'' then butlast sols else tl sols"
    let ?calls = "calls @ [(?req, judge (length calls) ?req)]"
    have j: "judged loads judge rules (length calls) (hd sols) (last sols) = d"
      using d by (simp add: judged_def sort_request_def)
    have len: "n = length ?next" using Suc.hyps(2) by simp
    have ne: "?next \<noteq> []" using drop_one_nonempty [OF True] by simp
    have step: "sorting_loop loads judge rules f sols calls
                = sorting_loop loads judge rules f ?next ?calls"
      using True d by (rule sorting_loop_win)
    have w: "tournament_winner (judged loads judge rules) (length calls) sols
             = tournament_winner (judged loads judge rules) (Suc (length calls)) ?next"
      using True j by (subst tournament_winner.simps) simp
    have r: "tournament_rounds (judged loads judge rules) (length calls) sols
             = (hd sols, last sols) #
               tournament_rounds (judged loads judge rules) (Suc (length calls)) ?next"
      using True j by (subst tournament_rounds.simps) simp
    have q: "pair_request rules (hd sols, last sols) = ?req"
      by (simp add: pair_request_def sort_request_def)
    have l: "length ?next = length sols - 1" by simp
    show ?thesis
      unfolding step w r
      using Suc.hyps(1) [OF len ne, of ?calls] True q l
      by simp
  qed
qed

text \<open>
  Whatever the judge answers, the log grows by the outcomes of the judge calls of the
  loop: entry \<open>i\<close> holds what the judge gives at call \<open>i\<close> for the request logged.
\<close>

lemma sorting_loop_log:
  "\<exists>new. snd (sorting_loop loads judge rules f sols calls) = calls @ new
     \<and> answered_by judge (length calls) new"
proof (induction "length sols * (MAX_RETRIES + 2) + (Suc MAX_RETRIES - f)"
       arbitrary: f sols calls rule: less_induct)
  case less
  show ?case
  proof (cases "1 < length sols")
    case False
    then have "snd (sorting_loop loads judge rules f sols calls) = calls @ []"
      by (subst sorting_loop.simps) (simp split: list.splits)
    then show ?thesis by (intro exI [of _ "[]"]) simp
  next
    case True
    let ?req = "sort_request rules sols"
    let ?e = "(?req, judge (length calls) ?req)"
    have one: "\<exists>new. calls @ [?e] = calls @ new \<and> answered_by judge (length calls) new"
      by (intro exI [of _ "[?e]"]) simp
    have more: "\<exists>new. snd (sorting_loop loads judge rules f' sols' (calls @ [?e])) = calls @ new
          \<and> answered_by judge (length calls) new"
      if m: "length sols' * (MAX_RETRIES + 2) + (Suc MAX_RETRIES - f')
          < length sols * (MAX_RETRIES + 2) + (Suc MAX_RETRIES - f)" for f' sols'
    proof -
      obtain new where "snd (sorting_loop loads judge rules f' sols' (calls @ [?e]))
            = (calls @ [?e]) @ new" "answered_by judge (length (calls @ [?e])) new"
        using less.hyps [OF m, of "calls @ [?e]"] by blast
      then show ?thesis by (intro exI [of _ "?e # new"]) simp
    qed
    have finish: "\<exists>new. snd R = calls @ new \<and> answered_by judge (length calls) new"
      if "R = (x, calls @ [?e])" for R :: "(py_exception + solution) \<times> call_log" and x
      unfolding that by (intro exI [of _ "[?e]"]) simp
    show ?thesis
    proof (cases "judge (length calls) ?req")
      case (Inl e)
      have "sorting_loop loads judge rules f sols calls = (Inl e, calls @ [(?req, Inl e)])"
        using True Inl by (rule sorting_loop_raise)
      then have "sorting_loop loads judge rules f sols calls = (Inl e, calls @ [?e])"
        unfolding Inl .
      then show ?thesis by (rule finish)
    next
      case (Inr resp)
      show ?thesis
      proof (cases "decision loads VALID_SORTING_ANSWERS (Inr resp)")
        case None
        have step: "sorting_loop loads judge rules f sols calls =
           (if MAX_RETRIES < Suc f then (Inl SortingFailureError, calls @ [(?req, Inr resp)])
            else sorting_loop loads judge rules (Suc f) sols (calls @ [(?req, Inr resp)]))"
          using True Inr None by (rule sorting_loop_fail)
        show ?thesis
        proof (cases "MAX_RETRIES < Suc f")
          case True
          have "sorting_loop loads judge rules f sols calls
                = (Inl SortingFailureError, calls @ [?e])"
            unfolding step Inr using True by simp
          then show ?thesis by (rule finish)
        next
          case False
          have eq: "sorting_loop loads judge rules f sols calls
                = sorting_loop loads judge rules (Suc f) sols (calls @ [?e])"
            unfolding step Inr using False by simp
          have "length sols * (MAX_RETRIES + 2) + (Suc MAX_RETRIES - Suc f)
              < length sols * (MAX_RETRIES + 2) + (Suc MAX_RETRIES - f)"
            using False by simp
          from more [OF this] show ?thesis unfolding eq .
        qed
      next
        case (Some d)
        let ?next = "if d = ''solution 1'' then butlast sols else tl sols"
        have dec: "decision loads VALID_SORTING_ANSWERS (judge (length calls) ?req) = Some d"
          unfolding Inr using Some .
        have step: "sorting_loop loads judge rules f sols calls
                    = sorting_loop loads judge rules f ?next (calls @ [?e])"
          using True dec by (rule sorting_loop_win)
        have "length ?next < length sols" using True by simp
        then have "Suc (length ?next) \<le> length sols" by simp
        then have "Suc (length ?next) * (MAX_RETRIES + 2) \<le> length sols * (MAX_RETRIES + 2)"
          by (rule mult_le_mono1)
        then have "length ?next * (MAX_RETRIES + 2) + (Suc MAX_RETRIES - f)
              < length sols * (MAX_RETRIES + 2) + (Suc MAX_RETRIES - f)"
          by simp
        from more [OF this] show ?thesis unfolding step .
      qed
    qed
  qed
qed

lemma get_best_solution_log:
  "answered_by judge 0 (snd (get_best_solution loads judge sols policy))"
proof (cases "length sols = 0 \<or> length sols = 1")
  case True
  then show ?thesis by (auto simp: get_best_solution_def)
next
  case False
  then have g: "get_best_solution loads judge sols policy
                = sorting_loop loads judge (sorting_rules policy) 0 sols []"
    by (simp add: get_best_solution_def)
  from sorting_loop_log [of loads judge "sorting_rules policy" 0 sols "[]"]
  obtain new where n: "snd (sorting_loop loads judge (sorting_rules policy) 0 sols []) = [] @ new"
    "answered_by judge (length ([] :: call_log)) new"
    by (elim exE conjE)
  have "snd (sorting_loop loads judge (sorting_rules policy) 0 sols []) = new"
    using n(1) by simp
  moreover have "answered_by judge 0 new"
    using n(2) by simp
  ultimately show ?thesis unfolding g by simp
qed

text \<open>
  Claim C2. For at least two solutions and a judge whose every answer parses to a
  decision, \<open>get_best_solution\<close> returns the winner of the tournament that compares the
  first and the last element of the current list in each round, drops the last on
  \<open>solution 1\<close> and the first otherwise, and the requests it sends are those of the
  compared pairs, in order. For two solutions and a judge that always answers
  \<open>solution 1\<close> the first solution is returned.
\<close>

theorem get_best_solution_is_tournament:
  "(2 \<le> length sols \<and> (\<forall>k req. decision loads VALID_SORTING_ANSWERS (judge k req) \<noteq> None)
      \<longrightarrow> fst (get_best_solution loads judge sols policy)
            = Inr (tournament_winner (judged loads judge (sorting_rules policy)) 0 sols)
        \<and> map fst (snd (get_best_solution loads judge sols policy))
            = map (pair_request (sorting_rules policy))
                (tournament_rounds (judged loads judge (sorting_rules policy)) 0 sols))
   \<and> ((\<forall>k req. decision loads VALID_SORTING_ANSWERS (judge k req) = Some ''solution 1'')
      \<longrightarrow> fst (get_best_solution loads judge [a, b] policy) = Inr a)"
proof (intro conjI impI)
  assume a: "2 \<le> length sols \<and> (\<forall>k req. decision loads VALID_SORTING_ANSWERS (judge k req) \<noteq> None)"
  then have ne: "sols \<noteq> []" by auto
  have g: "get_best_solution loads judge sols policy
           = sorting_loop loads judge (sorting_rules policy) 0 sols []"
    using a by (auto simp: get_best_solution_def)
  from a have parse: "\<forall>k req. decision loads VALID_SORTING_ANSWERS (judge k req) \<noteq> None"
    by blast
  show "fst (get_best_solution loads judge sols policy)
            = Inr (tournament_winner (judged loads judge (sorting_rules policy)) 0 sols)"
    unfolding g using sorting_loop_tournament [OF parse ne, of "sorting_rules policy" 0 "[]"] by simp
  show "map fst (snd (get_best_solution loads judge sols policy))
            = map (pair_request (sorting_rules policy))
                (tournament_rounds (judged loads judge (sorting_rules policy)) 0 sols)"
    unfolding g using sorting_loop_tournament [OF parse ne, of "sorting_rules policy" 0 "[]"] by simp
next
  assume a: "\<forall>k req. decision loads VALID_SORTING_ANSWERS (judge k req) = Some ''solution 1''"
  let ?rules = "sorting_rules policy"
  have g: "get_best_solution loads judge [a, b] policy = sorting_loop loads judge ?rules 0 [a, b] []"
    by (simp add: get_best_solution_def)
  have d: "decision loads VALID_SORTING_ANSWERS (judge (length []) (sort_request ?rules [a, b]))
           = Some ''solution 1''"
    using a by blast
  have "sorting_loop loads judge ?rules 0 [a, b] []
        = sorting_loop loads judge ?rules 0 [a]
            ([] @ [(sort_request ?rules [a, b], judge (length []) (sort_request ?rules [a, b]))])"
    using sorting_loop_win [of "[a, b]" loads judge "[]" ?rules "''solution 1''" 0] d by simp
  then show "fst (get_best_solution loads judge [a, b] policy) = Inr a"
    unfolding g by (simp add: sorting_loop_single)
qed

lemma sort_decisions:
  "answer_parser flat_loads solution_1_text VALID_SORTING_ANSWERS = Inr (''solution 1'', [])"
  "answer_parser flat_loads solution_2_text VALID_SORTING_ANSWERS = Inr (''solution 2'', [])"
  "answer_parser flat_loads undecided_text VALID_SORTING_ANSWERS = Inl InvalidAnswerError"
  by code_simp+

lemma always_solution_1_parses:
  "decision flat_loads VALID_SORTING_ANSWERS (always_solution_1 k req) = Some ''solution 1''"
  by (simp add: decision_def always_solution_1_def sort_decisions)

lemma alternating_judge_parses:
  "decision flat_loads VALID_SORTING_ANSWERS (alternating_judge k req) \<noteq> None"
  by (simp add: decision_def alternating_judge_def sort_decisions)

text \<open>
  Three solutions and a judge that answers \<open>Solution 2\<close>, then \<open>Solution 1\<close>: the
  first round drops the first solution, the second round drops the last, and the middle
  one is returned; with the judge that always answers \<open>Solution 1\<close>, the first of two.
\<close>

theorem get_best_solution_is_tournament_witness:
  "fst (get_best_solution flat_loads alternating_judge
          [speed_only, altitude_only, heading_only] example_policy) = Inr altitude_only
   \<and> map fst (snd (get_best_solution flat_loads alternating_judge
          [speed_only, altitude_only, heading_only] example_policy))
     = [pair_request (sorting_rules example_policy) (speed_only, heading_only),
        pair_request (sorting_rules example_policy) (altitude_only, heading_only)]
   \<and> fst (get_best_solution flat_loads always_solution_1 [heading_only, altitude_only]
          example_policy) = Inr heading_only"
proof -
  have j0: "judged flat_loads alternating_judge rs 0 x y = ''solution 2''" for rs x y
    by (simp add: judged_def decision_def alternating_judge_def sort_decisions)
  have j1: "judged flat_loads alternating_judge rs (Suc 0) x y = ''solution 1''" for rs x y
    by (simp add: judged_def decision_def alternating_judge_def sort_decisions)
  have w: "tournament_winner (judged flat_loads alternating_judge (sorting_rules example_policy)) 0
             [speed_only, altitude_only, heading_only] = altitude_only"
    by (simp add: tournament_winner.simps j0 j1)
  have r: "tournament_rounds (judged flat_loads alternating_judge (sorting_rules example_policy)) 0
             [speed_only, altitude_only, heading_only]
           = [(speed_only, heading_only), (altitude_only, heading_only)]"
    by (simp add: tournament_rounds.simps j0 j1)
  show ?thesis
    using get_best_solution_is_tournament
            [of "[speed_only, altitude_only, heading_only]" flat_loads alternating_judge
                example_policy heading_only altitude_only]
      get_best_solution_is_tournament
            [of "[speed_only, altitude_only, heading_only]" flat_loads always_solution_1
                example_policy heading_only altitude_only]
      alternating_judge_parses always_solution_1_parses w r
    by simp
qed

text \<open>
  Claim C3. \<open>get_best_solution\<close> is a total function. For a non-empty list of \<open>n\<close>
  solutions and a judge whose every answer parses, it returns one of the solutions, the
  winner of the tournament, and its log has exactly \<open>n - 1\<close> entries: entry \<open>i\<close> is the
  request of the pair compared in round \<open>i\<close> with the outcome the judge gives for it at
  call \<open>i\<close>, so the judge is called exactly \<open>n - 1\<close> times, once per round. A single
  solution is returned with no judge call, whatever the judge would answer, and the
  empty list raises an exception with no judge call.
\<close>

theorem get_best_solution_call_count:
  "(sols \<noteq> [] \<and> (\<forall>k req. decision loads VALID_SORTING_ANSWERS (judge k req) \<noteq> None)
      \<longrightarrow> (\<exists>s \<in> set sols. fst (get_best_solution loads judge sols policy) = Inr s)
        \<and> length (snd (get_best_solution loads judge sols policy)) = length sols - 1
        \<and> fst (get_best_solution loads judge sols policy)
            = Inr (tournament_winner (judged loads judge (sorting_rules policy)) 0 sols)
        \<and> map fst (snd (get_best_solution loads judge sols policy))
            = map (pair_request (sorting_rules policy))
                (tournament_rounds (judged loads judge (sorting_rules policy)) 0 sols)
        \<and> (\<forall>i<length sols - 1.
              snd (snd (get_best_solution loads judge sols policy) ! i)
                = judge i (fst (snd (get_best_solution loads judge sols policy) ! i))))
   \<and> get_best_solution loads judge [s] policy = (Inr s, [])
   \<and> get_best_solution loads judge [] policy = (Inl BareException, [])"
proof (intro conjI impI)
  assume a: "sols \<noteq> [] \<and> (\<forall>k req. decision loads VALID_SORTING_ANSWERS (judge k req) \<noteq> None)"
  then have ne: "sols \<noteq> []" and parse: "\<forall>k req. decision loads VALID_SORTING_ANSWERS (judge k req) \<noteq> None"
    by blast+
  let ?G = "get_best_solution loads judge sols policy"
  let ?D = "judged loads judge (sorting_rules policy)"
  have single: "tournament_winner ?D 0 sols = last sols \<and> tournament_rounds ?D 0 sols = []"
    if "length sols = 1"
    using that by (simp add: tournament_winner.simps [of _ _ sols] tournament_rounds.simps [of _ _ sols])
  have all: "fst ?G = Inr (tournament_winner ?D 0 sols)
      \<and> map fst (snd ?G) = map (pair_request (sorting_rules policy)) (tournament_rounds ?D 0 sols)
      \<and> length (snd ?G) = length sols - 1"
  proof (cases "length sols = 1")
    case True
    then show ?thesis using single by (simp add: get_best_solution_def)
  next
    case False
    then have g: "?G = sorting_loop loads judge (sorting_rules policy) 0 sols []"
      using ne by (simp add: get_best_solution_def)
    show ?thesis
      unfolding g
      using sorting_loop_tournament [OF parse ne, of "sorting_rules policy" 0 "[]"]
      by simp
  qed
  show "\<exists>s \<in> set sols. fst ?G = Inr s"
    using all tournament_winner_member [OF ne] by simp
  show "length (snd ?G) = length sols - 1"
    using all by simp
  show "fst ?G = Inr (tournament_winner ?D 0 sols)"
    using all by simp
  show "map fst (snd ?G) = map (pair_request (sorting_rules policy)) (tournament_rounds ?D 0 sols)"
    using all by simp
  show "\<forall>i<length sols - 1. snd (snd ?G ! i) = judge i (fst (snd ?G ! i))"
    using get_best_solution_log [of judge loads sols policy] all
    by (simp add: answered_by_nth)
qed (simp_all add: get_best_solution_def)

text \<open>
  Three solutions and the alternating judge: two log entries, which hold the two
  answers of the judge, for the pairs of the two rounds; the middle solution wins. One
  solution and no solution: no call.
\<close>

theorem get_best_solution_call_count_witness:
  "fst (get_best_solution flat_loads alternating_judge
          [speed_only, altitude_only, heading_only] example_policy) = Inr altitude_only
   \<and> length (snd (get_best_solution flat_loads alternating_judge
          [speed_only, altitude_only, heading_only] example_policy)) = 2
   \<and> map fst (snd (get_best_solution flat_loads alternating_judge
          [speed_only, altitude_only, heading_only] example_policy))
     = [pair_request (sorting_rules example_policy) (speed_only, heading_only),
        pair_request (sorting_rules example_policy) (altitude_only, heading_only)]
   \<and> map snd (snd (get_best_solution flat_loads alternating_judge
          [speed_only, altitude_only, heading_only] example_policy))
     = [Inr solution_2_text, Inr solution_1_text]
   \<and> get_best_solution flat_loads alternating_judge [heading_only] example_policy
       = (Inr heading_only, [])
   \<and> get_best_solution flat_loads alternating_judge [] example_policy = (Inl BareException, [])"
proof -
  let ?S = "[speed_only, altitude_only, heading_only]"
  let ?G = "get_best_solution flat_loads alternating_judge ?S example_policy"
  let ?rules = "sorting_rules example_policy"
  have j0: "judged flat_loads alternating_judge rs 0 x y = ''solution 2''" for rs x y
    by (simp add: judged_def decision_def alternating_judge_def sort_decisions)
  have j1: "judged flat_loads alternating_judge rs (Suc 0) x y = ''solution 1''" for rs x y
    by (simp add: judged_def decision_def alternating_judge_def sort_decisions)
  have w: "tournament_winner (judged flat_loads alternating_judge ?rules) 0 ?S = altitude_only"
    by (simp add: tournament_winner.simps j0 j1)
  have r: "tournament_rounds (judged flat_loads alternating_judge ?rules) 0 ?S
           = [(speed_only, heading_only), (altitude_only, heading_only)]"
    by (simp add: tournament_rounds.simps j0 j1)
  have parse: "?S \<noteq> [] \<and> (\<forall>k req. decision flat_loads VALID_SORTING_ANSWERS
      (alternating_judge k req) \<noteq> None)"
    using alternating_judge_parses by simp
  note T = get_best_solution_call_count
             [of ?S flat_loads alternating_judge example_policy heading_only]
  have res: "fst ?G = Inr altitude_only"
    using T parse w by simp
  have len: "length (snd ?G) = 2"
    using T parse by simp
  have reqs: "map fst (snd ?G) = [pair_request ?rules (speed_only, heading_only),
                                 pair_request ?rules (altitude_only, heading_only)]"
    using T parse r by simp
  have tie: "\<forall>i<length ?S - 1. snd (snd ?G ! i) = alternating_judge i (fst (snd ?G ! i))"
    using T parse by blast
  have a0: "snd (snd ?G ! 0) = Inr solution_2_text"
    using tie [rule_format, of 0] by (simp add: alternating_judge_def)
  have a1: "snd (snd ?G ! 1) = Inr solution_1_text"
    using tie [rule_format, of 1] by (simp add: alternating_judge_def)
  obtain x y where xy: "snd ?G = [x, y]"
    using len by (auto simp: length_Suc_conv numeral_2_eq_2)
  have outs: "map snd (snd ?G) = [Inr solution_2_text, Inr solution_1_text]"
    using a0 a1 unfolding xy by simp
  have one: "get_best_solution flat_loads alternating_judge [heading_only] example_policy
       = (Inr heading_only, [])"
    using T by blast
  have none: "get_best_solution flat_loads alternating_judge [] example_policy
       = (Inl BareException, [])"
    using T by blast
  show ?thesis
    using res len reqs outs one none by blast
qed

subsection \<open>The retry budget\<close>









section \<open>Properties of the filtering engine\<close>


lemma filtering_parser_tokens:
  assumes "answer_parser loads t VALID_FILTERING_ANSWERS = Inr (a, ex)"
  shows "a = ''yes'' \<or> a = ''no''"
  using assms
  by (auto simp: answer_parser_def Let_def VALID_FILTERING_ANSWERS_def
      split: option.splits jvalue.splits if_splits)

lemma filter_decision_tokens:
  assumes "filter_decision loads judge rules k s = Some d"
  shows "d = ''yes'' \<or> d = ''no''"
  using assms filtering_parser_tokens
  by (auto simp: filter_decision_def decision_def split: sum.splits)

text \<open>One iteration of the loop, by the decision on its solution.\<close>

lemma filter_loop_yes:
  assumes "filter_decision loads judge rules (length calls) s = Some ''yes''"
  shows "filter_loop loads judge rules (s # rest) valid km calls =
         filter_loop loads judge rules rest valid (km @ [False])
           (calls @ [(FilterRequest rules (commands s),
                      judge (length calls) (FilterRequest rules (commands s)))])"
  using assms
  by (auto simp: filter_decision_def decision_def Let_def split: sum.splits)

lemma filter_loop_no:
  assumes "filter_decision loads judge rules (length calls) s = Some ''no''"
  shows "filter_loop loads judge rules (s # rest) valid km calls =
         filter_loop loads judge rules rest (valid @ [s]) (km @ [True])
           (calls @ [(FilterRequest rules (commands s),
                      judge (length calls) (FilterRequest rules (commands s)))])"
  using assms
  by (auto simp: filter_decision_def decision_def Let_def split: sum.splits)


lemma kept_solutions_Nil: "kept_solutions dec n [] = []"
  by (simp add: kept_solutions_def)

lemma kept_solutions_Cons:
  "kept_solutions dec n (s # rest) =
     (if dec n s = Some ''no'' then [s] else []) @ kept_solutions dec (Suc n) rest"
proof -
  have "[n..<n + length (s # rest)] = n # [Suc n..<Suc n + length rest]"
    by (subst upt_rec) simp
  then show ?thesis by (simp add: kept_solutions_def)
qed


text \<open>When every decision parses, the loop keeps the solutions judged \<open>no\<close>.\<close>

lemma filter_loop_all_parse:
  "\<forall>i<length S. filter_decision loads judge rules (length calls + i) (S ! i) \<noteq> None \<Longrightarrow>
   fst (filter_loop loads judge rules S valid km calls)
     = Inr (valid @ kept_solutions (filter_decision loads judge rules) (length calls) S,
            km @ map (\<lambda>(k, s). filter_decision loads judge rules k s = Some ''no'')
                     (zip [length calls..<length calls + length S] S))
   \<and> length (snd (filter_loop loads judge rules S valid km calls)) = length calls + length S"
proof (induction S arbitrary: valid km calls)
  case Nil
  then show ?case by (simp add: kept_solutions_Nil)
next
  case (Cons s rest)
  let ?e = "(FilterRequest rules (commands s), judge (length calls) (FilterRequest rules (commands s)))"
  from Cons.prems have here: "filter_decision loads judge rules (length calls) s \<noteq> None"
    and later: "\<forall>i<length rest. filter_decision loads judge rules (length (calls @ [?e]) + i) (rest ! i) \<noteq> None"
    by (simp_all add: all_less_Suc_shift)
  from here obtain d where d: "filter_decision loads judge rules (length calls) s = Some d"
    by blast
  have up: "[length calls..<length calls + length (s # rest)]
      = length calls # [Suc (length calls)..<Suc (length calls) + length rest]"
    by (subst upt_rec) simp
  show ?case
  proof (cases "d = ''no''")
    case True
    show ?thesis
      unfolding filter_loop_no [OF d [unfolded True]] up
      using Cons.IH [OF later, of "valid @ [s]" "km @ [True]"] d True
      by (simp add: kept_solutions_Cons)
  next
    case False
    then have yes: "d = ''yes''" using filter_decision_tokens [OF d] by simp
    show ?thesis
      unfolding filter_loop_yes [OF d [unfolded yes]] up
      using Cons.IH [OF later, of valid "km @ [False]"] d yes
      by (simp add: kept_solutions_Cons)
  qed
qed



lemma filter_solutions_None:
  "filter_solutions loads judge S policy None
   = (case fst (filter_loop loads judge (filtering_rules policy) S [] [] []) of
        Inl e \<Rightarrow> Inl e
      | Inr vm \<Rightarrow> Inr (fst vm),
      snd (filter_loop loads judge (filtering_rules policy) S [] [] []))"
  by (simp add: filter_solutions_def split: prod.splits sum.splits)


lemma filter_decisions:
  "answer_parser flat_loads yes_text VALID_FILTERING_ANSWERS = Inr (''yes'', [])"
  "answer_parser flat_loads no_text VALID_FILTERING_ANSWERS = Inr (''no'', [])"
  "answer_parser flat_loads undecided_text VALID_FILTERING_ANSWERS = Inl InvalidAnswerError"
  by code_simp+

lemma altitude_judge_decisions:
  "filter_decision flat_loads altitude_judge rules k heading_only = Some ''no''"
  "filter_decision flat_loads altitude_judge rules k altitude_only = Some ''yes''"
  "filter_decision flat_loads altitude_judge rules k speed_only = Some ''no''"
  by (simp_all add: filter_decision_def decision_def altitude_judge_def filter_decisions
      heading_only_def altitude_only_def speed_only_def)



subsection \<open>Idempotence\<close>

lemma kept_solutions_deterministic:
  "kept_solutions (\<lambda>k. d) n S = filter (\<lambda>s. d s = Some ''no'') S"
  by (induction S arbitrary: n) (simp_all add: kept_solutions_Nil kept_solutions_Cons)

lemma filter_loop_Inr:
  "fst (filter_loop loads judge rules S valid km calls) = Inr (v, m) \<Longrightarrow>
   v = valid @ kept_solutions (filter_decision loads judge rules) (length calls) S"
proof (induction S arbitrary: valid km calls)
  case Nil
  then show ?case by (simp add: kept_solutions_Nil)
next
  case (Cons s rest)
  let ?e = "(FilterRequest rules (commands s), judge (length calls) (FilterRequest rules (commands s)))"
  show ?case
  proof (cases "filter_decision loads judge rules (length calls) s")
    case None
    then have "\<exists>e. fst (filter_loop loads judge rules (s # rest) valid km calls) = Inl e"
      using filtering_parser_tokens
      by (auto simp: filter_decision_def decision_def Let_def split: sum.splits)
    then show ?thesis using Cons.prems by auto
  next
    case (Some d)
    show ?thesis
    proof (cases "d = ''no''")
      case True
      have "fst (filter_loop loads judge rules rest (valid @ [s]) (km @ [True]) (calls @ [?e]))
            = Inr (v, m)"
        using Cons.prems unfolding filter_loop_no [OF Some [unfolded True]] .
      from Cons.IH [OF this] show ?thesis
        using Some True by (simp add: kept_solutions_Cons)
    next
      case False
      then have yes: "d = ''yes''" using filter_decision_tokens [OF Some] by simp
      have "fst (filter_loop loads judge rules rest valid (km @ [False]) (calls @ [?e]))
            = Inr (v, m)"
        using Cons.prems unfolding filter_loop_yes [OF Some [unfolded yes]] .
      from Cons.IH [OF this] show ?thesis
        using Some yes by (simp add: kept_solutions_Cons)
    qed
  qed
qed

lemma filter_loop_all_no:
  "\<forall>s \<in> set S. \<forall>k. filter_decision loads judge rules k s = Some ''no'' \<Longrightarrow>
   fst (filter_loop loads judge rules S valid km calls)
     = Inr (valid @ S, km @ replicate (length S) True)"
proof (induction S arbitrary: valid km calls)
  case Nil
  then show ?case by simp
next
  case (Cons s rest)
  have d: "filter_decision loads judge rules (length calls) s = Some ''no''"
    using Cons.prems by simp
  have rest: "\<forall>s \<in> set rest. \<forall>k. filter_decision loads judge rules k s = Some ''no''"
    using Cons.prems by simp
  show ?case
    unfolding filter_loop_no [OF d]
    using Cons.IH [OF rest, of "valid @ [s]" "km @ [True]"]
    by (simp add: replicate_append_same)
qed

text \<open>
  Claim C9. With a judge whose answer depends on the request only, filtering the result
  of a filtering again returns the same result; when the first filtering raises, so does
  the composition.
\<close>

theorem filter_solutions_idempotent:
  "(case fst (filter_solutions loads (\<lambda>k. answer) S policy None) of
      Inl e \<Rightarrow> Inl e
    | Inr S' \<Rightarrow> fst (filter_solutions loads (\<lambda>k. answer) S' policy None))
   = fst (filter_solutions loads (\<lambda>k. answer) S policy None)"
proof (cases "fst (filter_solutions loads (\<lambda>k. answer) S policy None)")
  case (Inl e)
  then show ?thesis by simp
next
  case (Inr S')
  let ?rules = "filtering_rules policy"
  let ?d = "\<lambda>s. decision loads VALID_FILTERING_ANSWERS (answer (FilterRequest ?rules (commands s)))"
  have dec: "filter_decision loads (\<lambda>k. answer) ?rules = (\<lambda>k. ?d)"
    by (intro ext) (simp add: filter_decision_def)
  obtain v m where vm: "fst (filter_loop loads (\<lambda>k. answer) ?rules S [] [] []) = Inr (v, m)"
    and v: "S' = v"
    using Inr by (auto simp: filter_solutions_None split: sum.splits)
  have "S' = filter (\<lambda>s. ?d s = Some ''no'') S"
    using filter_loop_Inr [OF vm] v by (simp add: dec kept_solutions_deterministic)
  then have "\<forall>s \<in> set S'. \<forall>k. filter_decision loads (\<lambda>k. answer) ?rules k s = Some ''no''"
    by (simp add: dec)
  then have "fst (filter_loop loads (\<lambda>k. answer) ?rules S' [] [] [])
             = Inr (S', replicate (length S') True)"
    using filter_loop_all_no [of S' loads "\<lambda>k. answer" ?rules "[]" "[]" "[]"] by simp
  then have "fst (filter_solutions loads (\<lambda>k. answer) S' policy None) = Inr S'"
    by (simp add: filter_solutions_None)
  then show ?thesis using Inr by simp
qed

text \<open>Filtering the three example solutions twice with the altitude judge.\<close>

theorem filter_solutions_idempotent_witness:
  "fst (filter_solutions flat_loads (\<lambda>k. altitude_judge 0)
          [heading_only, altitude_only, speed_only] example_policy None)
     = Inr [heading_only, speed_only]
   \<and> fst (filter_solutions flat_loads (\<lambda>k. altitude_judge 0)
          [heading_only, speed_only] example_policy None)
     = Inr [heading_only, speed_only]"
proof -
  let ?S = "[heading_only, altitude_only, speed_only]"
  let ?rules = "filtering_rules example_policy"
  have j: "(\<lambda>k. altitude_judge 0) = altitude_judge"
    by (intro ext) (simp add: altitude_judge_def)
  have 1: "\<forall>i<length ?S. filter_decision flat_loads altitude_judge ?rules i (?S ! i) \<noteq> None"
    by (auto simp: less_Suc_eq altitude_judge_decisions)
  have "fst (filter_loop flat_loads altitude_judge ?rules ?S [] [] [])
      = Inr (kept_solutions (filter_decision flat_loads altitude_judge ?rules) 0 ?S,
             map (\<lambda>(k, s). filter_decision flat_loads altitude_judge ?rules k s = Some ''no'')
               (zip [0..<length ?S] ?S))"
    using 1 filter_loop_all_parse [of ?S flat_loads altitude_judge ?rules "[]" "[]" "[]"] by simp
  then have first: "fst (filter_solutions flat_loads altitude_judge ?S example_policy None)
      = Inr [heading_only, speed_only]"
    by (simp add: filter_solutions_None kept_solutions_Cons kept_solutions_Nil
        altitude_judge_decisions)
  show ?thesis
    using filter_solutions_idempotent
            [where loads = flat_loads and answer = "altitude_judge 0" and S = ?S
               and policy = example_policy] first
    unfolding j by simp
qed

section \<open>Properties of the judge gateway\<close>

lemma caught_classes:
  "caught ResponseError" "caught ValidationError" "caught TypeError" "caught ValueError"
  "caught JSONDecodeError" "\<not> caught ConnectionError" "\<not> caught AttributeError"
  "\<not> caught OtherError"
  by (simp_all add: caught_def isinstance_def)

lemma chat_loop_all_fail:
  "\<forall>attempt \<in> set attempts. \<exists>e. client attempt messages = Raises e \<and> caught e \<Longrightarrow>
   chat_loop client messages attempts events
   = (Inr [Some []], events @ concat (map failed_attempt_events attempts))"
proof (induction attempts arbitrary: events)
  case Nil
  then show ?case by simp
next
  case (Cons attempt rest)
  from Cons.prems obtain e where e: "client attempt messages = Raises e" "caught e"
    by auto
  from Cons.prems have rest: "\<forall>a \<in> set rest. \<exists>e. client a messages = Raises e \<and> caught e"
    by simp
  show ?case
    using e Cons.IH [OF rest] by (simp add: failed_attempt_events_def)
qed

lemma retry_attempts: "[0..<N_RETRIES] = [0, 1, 2, 3, 4]"
  by (simp add: N_RETRIES_def upt_rec)

text \<open>
  Claim C5 fails on the code for the failure the claim is about first, a judge that
  cannot be reached. \<open>chat\<close> retries an attempt only when the exception raised is of
  one of the four classes of its \<open>except\<close> clause. When each of the five attempts
  raises one of them, \<open>chat\<close> makes the five attempts, sleeps \<open>min (0.1 + attempt) 5\<close>
  seconds after each and returns the list holding one empty string, as the claim says.
  An exception of any other class leaves \<open>chat\<close> at the first attempt, with no retry,
  no sleep and no empty text; \<open>ConnectionError\<close>, which the client raises when the
  server cannot be reached, is such a class. An attempt that succeeds returns the
  content the client gave.
\<close>

theorem chat_retries_only_caught_errors:
  "(client 0 messages = Raises e \<and> \<not> caught e
      \<longrightarrow> chat client messages = (Inl e, [Attempt 0]))
   \<and> \<not> caught ConnectionError
   \<and> ((\<forall>attempt<N_RETRIES. \<exists>e. client attempt messages = Raises e \<and> caught e)
      \<longrightarrow> chat client messages
          = (Inr [Some []], concat (map failed_attempt_events [0..<N_RETRIES]))
        \<and> filter is_attempt (snd (chat client messages)) = map Attempt [0..<5])
   \<and> (client 0 messages = Returns content
      \<longrightarrow> chat client messages = (Inr [content], [Attempt 0]))"
proof (intro conjI impI)
  have u: "[0..<N_RETRIES] = 0 # [1, 2, 3, 4]"
    by (simp add: retry_attempts)
  {
    assume "client 0 messages = Raises e \<and> \<not> caught e"
    then show "chat client messages = (Inl e, [Attempt 0])"
      by (simp add: chat_def u)
  }
  show "\<not> caught ConnectionError"
    by (rule caught_classes)
  {
    assume "\<forall>attempt<N_RETRIES. \<exists>e. client attempt messages = Raises e \<and> caught e"
    then have "\<forall>attempt \<in> set [0..<N_RETRIES].
        \<exists>e. client attempt messages = Raises e \<and> caught e"
      by simp
    then have c: "chat client messages
        = (Inr [Some []], concat (map failed_attempt_events [0..<N_RETRIES]))"
      unfolding chat_def
      using chat_loop_all_fail [of "[0..<N_RETRIES]" client messages "[]"]
      by simp
    then show "chat client messages
        = (Inr [Some []], concat (map failed_attempt_events [0..<N_RETRIES]))" .
    have v: "[0..<5] = [0, 1, 2, 3, 4 :: nat]"
      by (simp add: upt_rec)
    show "filter is_attempt (snd (chat client messages)) = map Attempt [0..<5]"
      unfolding c v by (simp add: retry_attempts failed_attempt_events_def)
  }
  {
    assume "client 0 messages = Returns content"
    then show "chat client messages = (Inr [content], [Attempt 0])"
      by (simp add: chat_def u)
  }
qed

text \<open>
  A server that cannot be reached: one attempt, and the exception leaves \<open>chat\<close>. A
  server that always answers with an error response: five attempts, five sleeps, and
  the empty text.
\<close>

theorem chat_retries_only_caught_errors_witness:
  "chat (\<lambda>attempt messages. Raises ConnectionError) ''why is the sky blue''
     = (Inl ConnectionError, [Attempt 0])
   \<and> chat (\<lambda>attempt messages. Raises ResponseError) ''why is the sky blue''
     = (Inr [Some []],
        [Attempt 0, Sleep (1 / 10), Attempt 1, Sleep (11 / 10), Attempt 2, Sleep (21 / 10),
         Attempt 3, Sleep (31 / 10), Attempt 4, Sleep (41 / 10)])"
proof -
  note T1 = chat_retries_only_caught_errors
              [of "\<lambda>attempt messages. Raises ConnectionError" "''why is the sky blue''"
                  ConnectionError "Some []"]
  note T2 = chat_retries_only_caught_errors
              [of "\<lambda>attempt messages. Raises ResponseError" "''why is the sky blue''"
                  ConnectionError "Some []"]
  have 1: "chat (\<lambda>attempt messages. Raises ConnectionError) ''why is the sky blue''
     = (Inl ConnectionError, [Attempt 0])"
    using T1 by blast
  have "\<forall>attempt<N_RETRIES. \<exists>e. (\<lambda>attempt messages. Raises ResponseError) attempt
           ''why is the sky blue'' = Raises e \<and> caught e"
    by (simp add: caught_classes)
  then have "chat (\<lambda>attempt messages. Raises ResponseError) ''why is the sky blue''
     = (Inr [Some []], concat (map failed_attempt_events [0..<N_RETRIES]))"
    using T2 by blast
  then have 2: "chat (\<lambda>attempt messages. Raises ResponseError) ''why is the sky blue''
     = (Inr [Some []],
        [Attempt 0, Sleep (1 / 10), Attempt 1, Sleep (11 / 10), Attempt 2, Sleep (21 / 10),
         Attempt 3, Sleep (31 / 10), Attempt 4, Sleep (41 / 10)])"
    by (simp add: retry_attempts failed_attempt_events_def)
  show ?thesis using 1 2 by (rule conjI)
qed

section \<open>Properties of policy loading\<close>










section \<open>The cleaning pass of the conflict tracker\<close>

lemmas tracker_eval =
  clean_conflicts_under_resolution_def drop_record_def list_pop_def conflict_in_def
  conflict_eq_def tracker_view_def three_tracked_def conflict_a_def conflict_b_def
  conflict_c_def turn_at_100_def doubleton_eq_iff timedelta_seconds_def round_half_even_def
  Let_def

text \<open>
  One tracked record whose chosen solution has its first command at time 100, the
  conflict still being detected: the record is retained at time 115 and evicted at
  time 125; it is evicted at any time once the conflict is no longer detected.
\<close>

lemma clean_single_record:
  "tracker_view (clean_conflicts_under_resolution 115 [conflict_a]
       [callsigns conflict_a \<mapsto> turn_at_100] [conflict_a]) [conflict_a]
     = Inr ([conflict_a], [Some turn_at_100])"
  "tracker_view (clean_conflicts_under_resolution 125 [conflict_a]
       [callsigns conflict_a \<mapsto> turn_at_100] [conflict_a]) [conflict_a]
     = Inr ([], [None])"
  "tracker_view (clean_conflicts_under_resolution 50 [conflict_a]
       [callsigns conflict_a \<mapsto> turn_at_100] [conflict_b]) [conflict_a]
     = Inr ([], [None])"
  by (simp_all add: tracker_eval)

text \<open>
  The simulation time is rounded to the microsecond before it is compared: a quarter of
  a microsecond after the end of the grace period the record is still retained.
\<close>

lemma clean_rounds_to_microseconds:
  "tracker_view (clean_conflicts_under_resolution (120 + 1 / 4194304) [conflict_a]
       [callsigns conflict_a \<mapsto> turn_at_100] [conflict_a]) [conflict_a]
     = Inr ([conflict_a], [Some turn_at_100])"
  by (simp add: tracker_eval)

text \<open>
  Claim C8 fails on the code when two records are removable in one pass. The loop
  enumerates a copy of the list but pops from the list itself by the index in the copy;
  after the first pop the indices no longer agree. Three conflicts are tracked, the
  first two are no longer detected and the third is, at time 50, before the first
  command of its solution: the pass leaves the second conflict in the list and removes
  the third from it, while the dictionary drops the first two. With two tracked
  conflicts, both removable (both stale at time 125, or both no longer detected), the
  second pop is out of range and the pass raises \<open>IndexError\<close>.
\<close>

theorem clean_conflicts_pops_wrong_record:
  "tracker_view (clean_conflicts_under_resolution 50 [conflict_a, conflict_b, conflict_c]
       three_tracked [conflict_c]) [conflict_a, conflict_b, conflict_c]
     = Inr ([conflict_b], [None, None, Some turn_at_100])
   \<and> clean_conflicts_under_resolution 125 [conflict_a, conflict_b] three_tracked
       [conflict_a, conflict_b] = Inl IndexError
   \<and> clean_conflicts_under_resolution 50 [conflict_a, conflict_b] three_tracked []
       = Inl IndexError"
  by (simp add: tracker_eval upt_rec)

section \<open>What get_best_solution leaves unchanged\<close>

text \<open>
  The loop on the store writes only list cells at addresses that were free when it
  started, and no solution cell.
\<close>

lemma sorting_loop_heap_frame:
  "solution_cells (snd (sorting_loop_heap loads judge rules f r calls h)) = solution_cells h
   \<and> next_free h \<le> next_free (snd (sorting_loop_heap loads judge rules f r calls h))
   \<and> (\<forall>a<next_free h.
         list_cells (snd (sorting_loop_heap loads judge rules f r calls h)) a = list_cells h a)"
proof (induction "length (list_cells h r) * (MAX_RETRIES + 2) + (Suc MAX_RETRIES - f)"
       arbitrary: f r calls h rule: less_induct)
  case less
  let ?xs = "list_cells h r"
  have cell: "list_cells (snd (new_list h xs)) (fst (new_list h xs)) = xs" for xs
    by (simp add: new_list_def)
  show ?case
  proof (cases "1 < length ?xs")
    case False
    then show ?thesis
      unfolding sorting_loop_heap.simps [of loads judge rules f r calls h]
      by (auto split: list.splits)
  next
    case True
    have retry: "solution_cells (snd (sorting_loop_heap loads judge rules (Suc f) r c h))
          = solution_cells h
        \<and> next_free h \<le> next_free (snd (sorting_loop_heap loads judge rules (Suc f) r c h))
        \<and> (\<forall>a<next_free h.
              list_cells (snd (sorting_loop_heap loads judge rules (Suc f) r c h)) a
                = list_cells h a)"
      if "\<not> MAX_RETRIES < Suc f" for c
    proof -
      have "length ?xs * (MAX_RETRIES + 2) + (Suc MAX_RETRIES - Suc f)
            < length ?xs * (MAX_RETRIES + 2) + (Suc MAX_RETRIES - f)"
        using that by simp
      then show ?thesis by (rule less.hyps)
    qed
    have slice: "solution_cells (snd (sorting_loop_heap loads judge rules f (fst (new_list h xs)) c
              (snd (new_list h xs)))) = solution_cells h
        \<and> next_free h \<le> next_free (snd (sorting_loop_heap loads judge rules f
              (fst (new_list h xs)) c (snd (new_list h xs))))
        \<and> (\<forall>a<next_free h.
              list_cells (snd (sorting_loop_heap loads judge rules f (fst (new_list h xs)) c
                (snd (new_list h xs)))) a = list_cells h a)"
      if "length xs < length ?xs" for xs c
    proof -
      have "Suc (length xs) \<le> length ?xs" using that by simp
      then have "Suc (length xs) * (MAX_RETRIES + 2) \<le> length ?xs * (MAX_RETRIES + 2)"
        by (rule mult_le_mono1)
      then have "length (list_cells (snd (new_list h xs)) (fst (new_list h xs))) * (MAX_RETRIES + 2)
              + (Suc MAX_RETRIES - f)
            < length ?xs * (MAX_RETRIES + 2) + (Suc MAX_RETRIES - f)"
        unfolding cell by simp
      from less.hyps [OF this, of c] show ?thesis
        by (auto simp: new_list_def)
    qed
    have b: "length (butlast ?xs) < length ?xs" and t: "length (tl ?xs) < length ?xs"
      using True by simp_all
    show ?thesis
      unfolding sorting_loop_heap.simps [of loads judge rules f r calls h]
      using True retry slice [OF b] slice [OF t]
      by (auto simp: Let_def split: sum.splits prod.splits)
  qed
qed

text \<open>The loop on the store computes what the loop on values computes.\<close>

lemma sorting_loop_heap_agrees:
  "map_prod (map_sum id (solution_cells h)) id
     (fst (sorting_loop_heap loads judge rules f r calls h))
   = sorting_loop loads judge rules f (list_value h r) calls"
proof (induction "length (list_cells h r) * (MAX_RETRIES + 2) + (Suc MAX_RETRIES - f)"
       arbitrary: f r calls h rule: less_induct)
  case less
  let ?xs = "list_cells h r"
  have cell: "list_cells (snd (new_list h xs)) (fst (new_list h xs)) = xs" for xs
    by (simp add: new_list_def)
  have sc: "solution_cells (snd (new_list h xs)) = solution_cells h" for xs
    by (simp add: new_list_def)
  show ?case
  proof (cases "1 < length ?xs")
    case False
    then show ?thesis
      unfolding sorting_loop_heap.simps [of loads judge rules f r calls h]
        sorting_loop.simps [of loads judge rules f "list_value h r" calls]
      by (auto simp: list_value_def last_map split: list.splits)
  next
    case True
    then have ne: "?xs \<noteq> []" by auto
    have retry: "map_prod (map_sum id (solution_cells h)) id
          (fst (sorting_loop_heap loads judge rules (Suc f) r c h))
        = sorting_loop loads judge rules (Suc f) (list_value h r) c"
      if "\<not> MAX_RETRIES < Suc f" for c
    proof -
      have "length ?xs * (MAX_RETRIES + 2) + (Suc MAX_RETRIES - Suc f)
            < length ?xs * (MAX_RETRIES + 2) + (Suc MAX_RETRIES - f)"
        using that by simp
      then show ?thesis by (rule less.hyps)
    qed
    have slice: "map_prod (map_sum id (solution_cells h)) id
          (fst (sorting_loop_heap loads judge rules f (fst (new_list h xs)) c (snd (new_list h xs))))
        = sorting_loop loads judge rules f (map (solution_cells h) xs) c"
      if "length xs < length ?xs" for xs c
    proof -
      have "Suc (length xs) \<le> length ?xs" using that by simp
      then have "Suc (length xs) * (MAX_RETRIES + 2) \<le> length ?xs * (MAX_RETRIES + 2)"
        by (rule mult_le_mono1)
      then have "length (list_cells (snd (new_list h xs)) (fst (new_list h xs))) * (MAX_RETRIES + 2)
              + (Suc MAX_RETRIES - f)
            < length ?xs * (MAX_RETRIES + 2) + (Suc MAX_RETRIES - f)"
        unfolding cell by simp
      from less.hyps [OF this, of c] show ?thesis
        by (simp add: sc list_value_def cell)
    qed
    have b: "length (butlast ?xs) < length ?xs" and t: "length (tl ?xs) < length ?xs"
      using True by simp_all
    show ?thesis
      unfolding sorting_loop_heap.simps [of loads judge rules f r calls h]
        sorting_loop.simps [of loads judge rules f "list_value h r" calls]
      using True ne retry slice [OF b] slice [OF t]
      by (auto simp: Let_def hd_map last_map map_butlast map_tl list_value_def [of h r]
          split: sum.splits prod.splits)
  qed
qed

text \<open>
  Claim C10. \<open>get_best_solution\<close>, run on a store in which the caller's list is
  allocated, leaves the caller's list cell and every other allocated list cell as they
  were, and leaves every solution cell as it was: the list the caller passed holds the
  same solutions after the call. The run on the store returns what the run on values
  returns.
\<close>

theorem get_best_solution_leaves_input:
  "solutions < next_free h \<longrightarrow>
     list_cells (snd (get_best_solution_heap loads judge solutions policy h)) solutions
       = list_cells h solutions
     \<and> (\<forall>a<next_free h.
           list_cells (snd (get_best_solution_heap loads judge solutions policy h)) a
             = list_cells h a)
     \<and> solution_cells (snd (get_best_solution_heap loads judge solutions policy h))
       = solution_cells h
     \<and> list_value (snd (get_best_solution_heap loads judge solutions policy h)) solutions
       = list_value h solutions
     \<and> map_prod (map_sum id (solution_cells h)) id
         (fst (get_best_solution_heap loads judge solutions policy h))
       = get_best_solution loads judge (list_value h solutions) policy"
proof
  assume a: "solutions < next_free h"
  let ?G = "get_best_solution_heap loads judge solutions policy h"
  have frame: "solution_cells (snd ?G) = solution_cells h
      \<and> (\<forall>a<next_free h. list_cells (snd ?G) a = list_cells h a)"
    using sorting_loop_heap_frame [of loads judge "sorting_rules policy" 0 solutions "[]" h]
    by (simp add: get_best_solution_heap_def)
  have agree: "map_prod (map_sum id (solution_cells h)) id (fst ?G)
       = get_best_solution loads judge (list_value h solutions) policy"
    using sorting_loop_heap_agrees [of h loads judge "sorting_rules policy" 0 solutions "[]"]
    by (auto simp: get_best_solution_heap_def get_best_solution_def list_value_def last_map)
  show "list_cells (snd ?G) solutions = list_cells h solutions
     \<and> (\<forall>a<next_free h. list_cells (snd ?G) a = list_cells h a)
     \<and> solution_cells (snd ?G) = solution_cells h
     \<and> list_value (snd ?G) solutions = list_value h solutions
     \<and> map_prod (map_sum id (solution_cells h)) id (fst ?G)
       = get_best_solution loads judge (list_value h solutions) policy"
    using frame a agree by (simp add: list_value_def)
qed

text \<open>
  The three example solutions in a store, judged by the alternating judge: the middle
  one is returned, by reference, and the caller's list still holds all three.
\<close>

theorem get_best_solution_leaves_input_witness:
  "list_cells (snd (get_best_solution_heap flat_loads alternating_judge 0 example_policy
                      example_heap)) 0 = [0, 1, 2]
   \<and> list_value (snd (get_best_solution_heap flat_loads alternating_judge 0 example_policy
                      example_heap)) 0 = [speed_only, altitude_only, heading_only]
   \<and> fst (fst (get_best_solution_heap flat_loads alternating_judge 0 example_policy
                      example_heap)) = Inr 1"
proof -
  have r: "fst (fst (get_best_solution_heap flat_loads alternating_judge 0 example_policy
                      example_heap)) = Inr 1"
    by (simp add: get_best_solution_heap_def example_heap_def sorting_loop_heap.simps
        alternating_judge_def sort_decisions Let_def new_list_def)
  have "(0::nat) < next_free example_heap"
    by (simp add: example_heap_def)
  then show ?thesis
    using get_best_solution_leaves_input
            [of 0 example_heap flat_loads alternating_judge example_policy] r
    by (simp add: list_value_def) (simp add: example_heap_def)
qed

end
